theory Spec2Isabelle
  imports Complex_Main "HOL-Library.Word" "HOL-Library.Multiset"
begin

section \<open>Integers, errors and column vectors\<close>

text \<open>
  Elemental's \<^verbatim>\<open>Int\<close> is the C++ \<^verbatim>\<open>int\<close> of the build: a 32-bit two's complement
  integer.  It is the machine word \<open>Int_t\<close> here; \<open>sint\<close> reads its signed value and
  \<open>+\<close> wraps.
\<close>

type_synonym Int_t = "32 word"

text \<open>
  \<^verbatim>\<open>LogicError\<close> is the exception the library throws.  \<open>OutOfBounds\<close> stands for an
  access outside a matrix or a buffer: the assertions of a debug build report it as a
  logic error, a release build has no defined behaviour there.  \<open>NotRepresentable\<close>
  stands for the conversion of a floating-point value that no \<^verbatim>\<open>Int\<close> holds, which has
  no defined behaviour either.
\<close>

datatype error = LogicError string | OutOfBounds | NotRepresentable

text \<open>
  A \<^verbatim>\<open>Matrix<T>\<close> of width one (a column vector) is the list of its entries and its
  \<^verbatim>\<open>Height()\<close> is the length of the list.  \<^verbatim>\<open>Get(i,0)\<close>, \<^verbatim>\<open>Set(i,0,v)\<close> and
  \<^verbatim>\<open>Update(i,0,v)\<close> take the signed value of their row index.
\<close>

definition Get :: "'a list \<Rightarrow> int \<Rightarrow> error + 'a" where
  "Get x i = (if 0 \<le> i \<and> i < int (length x) then Inr (x ! nat i) else Inl OutOfBounds)"

definition Set :: "'a list \<Rightarrow> int \<Rightarrow> 'a \<Rightarrow> error + 'a list" where
  "Set x i v = (if 0 \<le> i \<and> i < int (length x) then Inr (x[nat i := v]) else Inl OutOfBounds)"

definition Update :: "Int_t list \<Rightarrow> int \<Rightarrow> Int_t \<Rightarrow> error + Int_t list" where
  "Update x i v =
     (if 0 \<le> i \<and> i < int (length x) then Inr (x[nat i := x ! nat i + v]) else Inl OutOfBounds)"

section \<open>RestoreOrdering\<close>

text \<open>
  \<^verbatim>\<open>RestoreOrdering( preimage, x )\<close>: the loop over \<open>j < preimage.Height()\<close> that
  writes \<open>xCopy.Get(j,0)\<close> to position \<open>preimage.Get(j,0)\<close> of \<open>x\<close>.  The loop
  counter runs from zero up to a height, so it is a natural number.
\<close>

function RestoreOrdering_loop :: "Int_t list \<Rightarrow> 'a list \<Rightarrow> nat \<Rightarrow> 'a list \<Rightarrow> error + 'a list" where
  "RestoreOrdering_loop preimage xCopy j x =
     (if j < length preimage then
        (case Get preimage (int j) of
           Inl e \<Rightarrow> Inl e
         | Inr dest \<Rightarrow>
             (case Get xCopy (int j) of
                Inl e \<Rightarrow> Inl e
              | Inr v \<Rightarrow>
                  (case Set x (sint dest) v of
                     Inl e \<Rightarrow> Inl e
                   | Inr x' \<Rightarrow> RestoreOrdering_loop preimage xCopy (Suc j) x')))
      else Inr x)"
  by pat_completeness auto
termination
  by (relation "measure (\<lambda>(preimage, xCopy, j, x). length preimage - j)") auto

declare RestoreOrdering_loop.simps [simp del]

definition RestoreOrdering :: "Int_t list \<Rightarrow> 'a list \<Rightarrow> error + 'a list" where
  "RestoreOrdering preimage x = RestoreOrdering_loop preimage x 0 x"

text \<open>The overload for two parallel vectors: one loop, both vectors written at \<open>dest\<close>.\<close>

function RestoreOrdering2_loop ::
  "Int_t list \<Rightarrow> 'a list \<Rightarrow> 'b list \<Rightarrow> nat \<Rightarrow> 'a list \<times> 'b list \<Rightarrow> error + 'a list \<times> 'b list" where
  "RestoreOrdering2_loop preimage xCopy yCopy j (x, y) =
     (if j < length preimage then
        (case Get preimage (int j) of
           Inl e \<Rightarrow> Inl e
         | Inr dest \<Rightarrow>
             (case Get xCopy (int j) of
                Inl e \<Rightarrow> Inl e
              | Inr v \<Rightarrow>
                  (case Set x (sint dest) v of
                     Inl e \<Rightarrow> Inl e
                   | Inr x' \<Rightarrow>
                       (case Get yCopy (int j) of
                          Inl e \<Rightarrow> Inl e
                        | Inr w \<Rightarrow>
                            (case Set y (sint dest) w of
                               Inl e \<Rightarrow> Inl e
                             | Inr y' \<Rightarrow>
                                 RestoreOrdering2_loop preimage xCopy yCopy (Suc j) (x', y'))))))
      else Inr (x, y))"
  by pat_completeness auto
termination
  by (relation "measure (\<lambda>(preimage, xCopy, yCopy, j, xy). length preimage - j)") auto

declare RestoreOrdering2_loop.simps [simp del]

definition RestoreOrdering2 :: "Int_t list \<Rightarrow> 'a list \<Rightarrow> 'b list \<Rightarrow> error + 'a list \<times> 'b list" where
  "RestoreOrdering2 preimage x y = RestoreOrdering2_loop preimage x y 0 (x, y)"

text \<open>
  A preimage vector is a permutation of \<open>0, ..., n - 1\<close> when its signed entries are
  these numbers, each once.
\<close>

definition is_permutation :: "Int_t list \<Rightarrow> bool" where
  "is_permutation preimage = (mset (map sint preimage) = mset (map int [0..<length preimage]))"

section \<open>Floating-point values\<close>

text \<open>
  The template parameter \<^verbatim>\<open>Real\<close> is a binary floating-point type.  Its values are
  the finite numbers, the two infinities and NaN; the two zeros are not told apart.
  An arithmetic operation on finite operands returns the rounding of the exact result:
  the rounding \<open>rnd\<close> of the format is a parameter of every operation that rounds, and
  it may overflow to an infinity.  Comparisons with NaN are false.
\<close>

datatype Real = NaN | NegInf | Fin real | PosInf

type_synonym rounding = "real \<Rightarrow> Real"

definition isnan :: "Real \<Rightarrow> bool" where
  "isnan x = (x = NaN)"

fun Real_le :: "Real \<Rightarrow> Real \<Rightarrow> bool" where
  "Real_le NaN y = False"
| "Real_le x NaN = False"
| "Real_le NegInf y = True"
| "Real_le x PosInf = True"
| "Real_le PosInf y = False"
| "Real_le x NegInf = False"
| "Real_le (Fin a) (Fin b) = (a \<le> b)"

fun Real_lt :: "Real \<Rightarrow> Real \<Rightarrow> bool" where
  "Real_lt NaN y = False"
| "Real_lt x NaN = False"
| "Real_lt x NegInf = False"
| "Real_lt PosInf y = False"
| "Real_lt NegInf y = True"
| "Real_lt x PosInf = True"
| "Real_lt (Fin a) (Fin b) = (a < b)"

definition Real_ge :: "Real \<Rightarrow> Real \<Rightarrow> bool" where
  "Real_ge x y = Real_le y x"

definition Real_gt :: "Real \<Rightarrow> Real \<Rightarrow> bool" where
  "Real_gt x y = Real_lt y x"

definition Real_eq :: "Real \<Rightarrow> Real \<Rightarrow> bool" where
  "Real_eq x y = (x \<noteq> NaN \<and> x = y)"

fun Abs :: "Real \<Rightarrow> Real" where
  "Abs NaN = NaN"
| "Abs NegInf = PosInf"
| "Abs PosInf = PosInf"
| "Abs (Fin a) = Fin \<bar>a\<bar>"

fun Real_neg :: "Real \<Rightarrow> Real" where
  "Real_neg NaN = NaN"
| "Real_neg NegInf = PosInf"
| "Real_neg PosInf = NegInf"
| "Real_neg (Fin a) = Fin (- a)"

fun Real_add :: "rounding \<Rightarrow> Real \<Rightarrow> Real \<Rightarrow> Real" where
  "Real_add rnd NaN y = NaN"
| "Real_add rnd x NaN = NaN"
| "Real_add rnd PosInf NegInf = NaN"
| "Real_add rnd NegInf PosInf = NaN"
| "Real_add rnd PosInf y = PosInf"
| "Real_add rnd NegInf y = NegInf"
| "Real_add rnd x PosInf = PosInf"
| "Real_add rnd x NegInf = NegInf"
| "Real_add rnd (Fin a) (Fin b) = rnd (a + b)"

definition Real_sub :: "rounding \<Rightarrow> Real \<Rightarrow> Real \<Rightarrow> Real" where
  "Real_sub rnd x y = Real_add rnd x (Real_neg y)"

text \<open>The sign of a value that is not NaN, for the infinite results of \<open>*\<close> and \<open>/\<close>.\<close>

fun Real_sgn :: "Real \<Rightarrow> real" where
  "Real_sgn NaN = 0"
| "Real_sgn NegInf = - 1"
| "Real_sgn PosInf = 1"
| "Real_sgn (Fin a) = sgn a"

definition signed_inf :: "real \<Rightarrow> Real" where
  "signed_inf s = (if s = 0 then NaN else if 0 < s then PosInf else NegInf)"

fun Real_mul :: "rounding \<Rightarrow> Real \<Rightarrow> Real \<Rightarrow> Real" where
  "Real_mul rnd NaN y = NaN"
| "Real_mul rnd x NaN = NaN"
| "Real_mul rnd (Fin a) (Fin b) = rnd (a * b)"
| "Real_mul rnd x y = signed_inf (Real_sgn x * Real_sgn y)"

fun Real_div :: "rounding \<Rightarrow> Real \<Rightarrow> Real \<Rightarrow> Real" where
  "Real_div rnd NaN y = NaN"
| "Real_div rnd x NaN = NaN"
| "Real_div rnd (Fin a) (Fin b) = (if b = 0 then signed_inf (sgn a) else rnd (a / b))"
| "Real_div rnd (Fin a) y = Fin 0"
| "Real_div rnd x (Fin b) = signed_inf (Real_sgn x * (if b < 0 then - 1 else 1))"
| "Real_div rnd x y = NaN"

section \<open>NormCap, CapEstimates and FindConverged\<close>

text \<open>
  \<^verbatim>\<open>NormCap<F>()\<close> is \<^verbatim>\<open>Base<F>(1)/lapack::MachineEpsilon<Base<F>>()\<close>.  The machine
  epsilon comes from LAPACK, outside these sources: it is the parameter \<open>eps\<close>.
\<close>

definition NormCap :: "rounding \<Rightarrow> Real \<Rightarrow> Real" where
  "NormCap rnd eps = Real_div rnd (Fin 1) eps"

text \<open>\<^verbatim>\<open>CapEstimates\<close>: the loop over \<open>j < n\<close>, \<open>n\<close> the height of the vector.\<close>

function CapEstimates_loop :: "Real \<Rightarrow> nat \<Rightarrow> nat \<Rightarrow> Real list \<Rightarrow> error + Real list" where
  "CapEstimates_loop normCap n j activeEsts =
     (if j < n then
        (case Get activeEsts (int j) of
           Inl e \<Rightarrow> Inl e
         | Inr alpha \<Rightarrow>
             (case Set activeEsts (int j)
                     (if isnan alpha \<or> Real_ge alpha normCap then normCap else alpha) of
                Inl e \<Rightarrow> Inl e
              | Inr activeEsts' \<Rightarrow> CapEstimates_loop normCap n (Suc j) activeEsts'))
      else Inr activeEsts)"
  by pat_completeness auto
termination
  by (relation "measure (\<lambda>(normCap, n, j, activeEsts). n - j)") auto

declare CapEstimates_loop.simps [simp del]

definition CapEstimates :: "rounding \<Rightarrow> Real \<Rightarrow> Real list \<Rightarrow> error + Real list" where
  "CapEstimates rnd eps activeEsts =
     CapEstimates_loop (NormCap rnd eps) (length activeEsts) 0 activeEsts"

text \<open>
  The convergence test of one shift in \<^verbatim>\<open>FindConverged\<close>: \<^verbatim>\<open>converged\<close> starts false,
  is true when \<open>currEst >= normCap\<close>, and otherwise, when \<open>Abs(currEst) > 0\<close>, is
  \<open>Abs(lastEst-currEst)/Abs(currEst) <= maxDiff\<close>.
\<close>

definition converged_test :: "rounding \<Rightarrow> Real \<Rightarrow> Real \<Rightarrow> Real \<Rightarrow> Real \<Rightarrow> bool" where
  "converged_test rnd normCap lastEst currEst maxDiff =
     (if Real_ge currEst normCap then True
      else if Real_gt (Abs currEst) (Fin 0) then
        Real_le (Real_div rnd (Abs (Real_sub rnd lastEst currEst)) (Abs currEst)) maxDiff
      else False)"

text \<open>
  \<^verbatim>\<open>FindConverged\<close> on sequential matrices: \<open>activeConverged\<close> starts as zeros, a
  converged shift gets the entry 1, any other shift has its iteration count updated
  by 1.  The result is \<open>activeConverged\<close> together with the updated \<open>activeItCounts\<close>.
  The distributed overload runs the same loop body over the entries a process owns.
\<close>

function FindConverged_loop ::
  "rounding \<Rightarrow> Real \<Rightarrow> Real list \<Rightarrow> Real list \<Rightarrow> Real \<Rightarrow> nat \<Rightarrow> nat \<Rightarrow>
   Int_t list \<times> Int_t list \<Rightarrow> error + Int_t list \<times> Int_t list" where
  "FindConverged_loop rnd normCap lastActiveEsts activeEsts maxDiff n j
       (activeConverged, activeItCounts) =
     (if j < n then
        (case Get lastActiveEsts (int j) of
           Inl e \<Rightarrow> Inl e
         | Inr lastEst \<Rightarrow>
             (case Get activeEsts (int j) of
                Inl e \<Rightarrow> Inl e
              | Inr currEst \<Rightarrow>
                  (if converged_test rnd normCap lastEst currEst maxDiff then
                     (case Set activeConverged (int j) 1 of
                        Inl e \<Rightarrow> Inl e
                      | Inr activeConverged' \<Rightarrow>
                          FindConverged_loop rnd normCap lastActiveEsts activeEsts maxDiff n
                            (Suc j) (activeConverged', activeItCounts))
                   else
                     (case Update activeItCounts (int j) 1 of
                        Inl e \<Rightarrow> Inl e
                      | Inr activeItCounts' \<Rightarrow>
                          FindConverged_loop rnd normCap lastActiveEsts activeEsts maxDiff n
                            (Suc j) (activeConverged, activeItCounts')))))
      else Inr (activeConverged, activeItCounts))"
  by pat_completeness auto
termination
  by (relation "measure (\<lambda>(rnd, normCap, lastActiveEsts, activeEsts, maxDiff, n, j, s). n - j)")
    auto

declare FindConverged_loop.simps [simp del]

definition FindConverged ::
  "rounding \<Rightarrow> Real \<Rightarrow> Real list \<Rightarrow> Real list \<Rightarrow> Int_t list \<Rightarrow> Real \<Rightarrow>
   error + Int_t list \<times> Int_t list" where
  "FindConverged rnd eps lastActiveEsts activeEsts activeItCounts maxDiff =
     FindConverged_loop rnd (NormCap rnd eps) lastActiveEsts activeEsts maxDiff
       (length activeEsts) 0 (replicate (length activeEsts) 0, activeItCounts)"

section \<open>Grids\<close>

text \<open>
  Modelled from the spec: the \<^verbatim>\<open>Matrix\<close> class (\<^verbatim>\<open>Resize\<close>, \<^verbatim>\<open>View\<close>, \<^verbatim>\<open>Buffer\<close>) and
  \<^verbatim>\<open>MemCopy\<close> are not among the sources.  A matrix is a height, a width, a leading
  dimension and its memory; entry \<open>(i, j)\<close> lives at offset \<open>i + j * ldim\<close> (column-major
  storage).  \<^verbatim>\<open>Resize\<close> sets the dimensions and promises nothing about the entries:
  the memory keeps whatever it held.  What a matrix shows to its readers is its list of
  columns.
\<close>

record 'a Matrix =
  height :: nat
  width :: nat
  ldim :: nat
  mem :: "nat \<Rightarrow> 'a"

definition entry :: "'a Matrix \<Rightarrow> nat \<Rightarrow> nat \<Rightarrow> 'a" where
  "entry X i j = mem X (i + j * ldim X)"

definition columns :: "'a Matrix \<Rightarrow> 'a list list" where
  "columns X = map (\<lambda>j. map (\<lambda>i. entry X i j) [0..<height X]) [0..<width X]"

definition Resize :: "'a Matrix \<Rightarrow> int \<Rightarrow> int \<Rightarrow> int \<Rightarrow> error + 'a Matrix" where
  "Resize X h w l =
     (if h < 0 \<or> w < 0 then Inl (LogicError ''Height and width must be non-negative'')
      else if l < h then Inl (LogicError ''Leading dimension must be no less than height'')
      else Inr (X\<lparr>height := nat h, width := nat w, ldim := nat l\<rparr>))"

text \<open>
  Modelled from the spec: \<^verbatim>\<open>MemCopy( dest, source, n )\<close> copies \<open>n\<close> entries; here the
  destination is the buffer of a matrix, which has room for \<open>ldim * width\<close> entries.
\<close>

definition MemCopy :: "'a Matrix \<Rightarrow> 'a list \<Rightarrow> int \<Rightarrow> error + 'a Matrix" where
  "MemCopy X source n =
     (if 0 \<le> n \<and> nat n \<le> length source \<and> nat n \<le> ldim X * width X
      then Inr (X\<lparr>mem := (\<lambda>k. if k < nat n then source ! k else mem X k)\<rparr>)
      else Inl OutOfBounds)"

text \<open>
  The sequential \<^verbatim>\<open>ReshapeIntoGrid\<close> (the branch that is compiled): resize \<open>X\<close> to
  \<open>realSize\<close> by \<open>imagSize\<close> with leading dimension \<open>realSize\<close>, then one copy of
  \<open>realSize*imagSize\<close> entries, a product of two \<^verbatim>\<open>Int\<close>s.
\<close>

definition ReshapeIntoGrid :: "Int_t \<Rightarrow> Int_t \<Rightarrow> 'a list \<Rightarrow> 'a Matrix \<Rightarrow> error + 'a Matrix" where
  "ReshapeIntoGrid realSize imagSize x X =
     (case Resize X (sint realSize) (sint imagSize) (sint realSize) of
        Inl e \<Rightarrow> Inl e
      | Inr X' \<Rightarrow> MemCopy X' x (sint (realSize * imagSize)))"

text \<open>
  Modelled from the spec: \<^verbatim>\<open>View( X, i, j, h, w )\<close> is the \<open>h\<close> by \<open>w\<close> block of \<open>X\<close> at
  \<open>(i, j)\<close> and must lie inside \<open>X\<close>; \<^verbatim>\<open>LockedView\<close> of a column vector likewise.
\<close>

definition View_ok :: "'a Matrix \<Rightarrow> int \<Rightarrow> int \<Rightarrow> int \<Rightarrow> int \<Rightarrow> bool" where
  "View_ok X i j h w =
     (0 \<le> i \<and> 0 \<le> j \<and> 0 \<le> h \<and> 0 \<le> w \<and> i + h \<le> int (height X) \<and> j + w \<le> int (width X))"

definition LockedView_ok :: "'a list \<Rightarrow> int \<Rightarrow> int \<Rightarrow> bool" where
  "LockedView_ok x i h = (0 \<le> i \<and> 0 \<le> h \<and> i + h \<le> int (length x))"

text \<open>
  The distributed \<^verbatim>\<open>ReshapeIntoGrid\<close>, on the global matrix (the process grid is left
  out, and the global matrix is stored with the leading dimension of the sequential
  one): resize \<open>X\<close> to \<open>realSize\<close> by \<open>imagSize\<close>, then for every \<open>j < realSize\<close> assign
  the view of \<open>imagSize\<close> entries of \<open>x\<close> from \<open>j*imagSize\<close> to the view of the first
  \<open>imagSize\<close> rows of column \<open>j\<close> of \<open>X\<close>.  The block under \<^verbatim>\<open>#if 0\<close> of the sequential
  overload is this loop too.
\<close>

function ReshapeIntoGrid_Dist_loop ::
  "Int_t \<Rightarrow> Int_t \<Rightarrow> 'a list \<Rightarrow> nat \<Rightarrow> 'a Matrix \<Rightarrow> error + 'a Matrix" where
  "ReshapeIntoGrid_Dist_loop realSize imagSize x j X =
     (if int j < sint realSize then
        (if View_ok X 0 (int j) (sint imagSize) 1 \<and>
            LockedView_ok x (sint (of_nat j * imagSize)) (sint imagSize)
         then
           ReshapeIntoGrid_Dist_loop realSize imagSize x (Suc j)
             (X\<lparr>mem := (\<lambda>k. if j * ldim X \<le> k \<and> k < j * ldim X + nat (sint imagSize)
                              then x ! (nat (sint (of_nat j * imagSize)) + (k - j * ldim X))
                              else mem X k)\<rparr>)
         else Inl OutOfBounds)
      else Inr X)"
  by pat_completeness auto
termination
  by (relation "measure (\<lambda>(realSize, imagSize, x, j, X). nat (sint realSize) - j)") auto

declare ReshapeIntoGrid_Dist_loop.simps [simp del]

definition ReshapeIntoGrid_Dist ::
  "Int_t \<Rightarrow> Int_t \<Rightarrow> 'a list \<Rightarrow> 'a Matrix \<Rightarrow> error + 'a Matrix" where
  "ReshapeIntoGrid_Dist realSize imagSize x X =
     (case Resize X (sint realSize) (sint imagSize) (sint realSize) of
        Inl e \<Rightarrow> Inl e
      | Inr X' \<Rightarrow> ReshapeIntoGrid_Dist_loop realSize imagSize x 0 X')"

text \<open>
  The reference layout in the words of the specification: grid column \<open>j\<close>, for
  \<open>j < realSize\<close>, holds the vector entries \<open>j*imagSize\<close> through
  \<open>j*imagSize + imagSize - 1\<close>.
\<close>

definition reference_columns :: "nat \<Rightarrow> nat \<Rightarrow> 'a list \<Rightarrow> 'a list list" where
  "reference_columns realSize imagSize x =
     map (\<lambda>j. map (\<lambda>i. x ! (j * imagSize + i)) [0..<imagSize]) [0..<realSize]"

section \<open>Snapshot\<close>

text \<open>
  \<^verbatim>\<open>os << base << "-" << numIts\<close>: the decimal digits of an \<^verbatim>\<open>Int\<close> after the base
  name and a dash.
\<close>

fun show_nat :: "nat \<Rightarrow> string" where
  "show_nat n =
     (if n < 10 then [''0123456789'' ! n]
      else show_nat (n div 10) @ [''0123456789'' ! (n mod 10)])"

declare show_nat.simps [simp del]

definition show_Int :: "Int_t \<Rightarrow> string" where
  "show_Int i =
     (if sint i < 0 then CHR ''-'' # show_nat (nat (- sint i)) else show_nat (nat (sint i)))"

definition snapshot_name :: "string \<Rightarrow> Int_t \<Rightarrow> string" where
  "snapshot_name base numIts = base @ ''-'' @ show_Int numIts"

text \<open>
  Modelled from the spec: the colour maps, \<^verbatim>\<open>Write\<close>, \<^verbatim>\<open>EntrywiseMap\<close> and
  \<^verbatim>\<open>Log\<close> are not among the sources.  The colour map is a global of the library that
  \<^verbatim>\<open>GetColorMap\<close> reads and \<^verbatim>\<open>SetColorMap\<close> sets.  \<^verbatim>\<open>Write( A, name, format )\<close> hands a
  matrix to the persistence collaborator: a call is recorded with the columns of the
  matrix, the name, the format and the colour map of that moment.  The file formats are
  a type parameter, and \<^verbatim>\<open>Log\<close> is a parameter of \<^verbatim>\<open>Snapshot\<close>.
\<close>

datatype ColorMap = GRAYSCALE | GRAYSCALE_DISCRETE | RED_BLACK_GREEN | BLUE_RED

record 'fmt write_call =
  wr_columns :: "Real list list"
  wr_name :: string
  wr_format :: 'fmt
  wr_colorMap :: ColorMap

text \<open>
  What \<^verbatim>\<open>Snapshot\<close> reads and changes besides its value arguments: the two counters it
  takes by reference, the colour map and the calls of \<^verbatim>\<open>Write\<close> made so far.
\<close>

record 'fmt snapshot_state =
  numSaveCount :: Int_t
  imgSaveCount :: Int_t
  colorMap :: ColorMap
  written :: "'fmt write_call list"

definition Write :: "Real Matrix \<Rightarrow> string \<Rightarrow> 'fmt \<Rightarrow> 'fmt snapshot_state \<Rightarrow> 'fmt snapshot_state" where
  "Write A name format s =
     s\<lparr>written := written s @
         [\<lparr>wr_columns = columns A, wr_name = name, wr_format = format,
           wr_colorMap = colorMap s\<rparr>]\<rparr>"

definition EntrywiseMap :: "'a Matrix \<Rightarrow> ('a \<Rightarrow> 'a) \<Rightarrow> 'a Matrix" where
  "EntrywiseMap A f = A\<lparr>mem := (\<lambda>k. f (mem A k))\<rparr>"

text \<open>A matrix as its default constructor leaves it: no rows, no columns.\<close>

definition empty_Matrix :: "'a \<Rightarrow> 'a Matrix" where
  "empty_Matrix a = \<lparr>height = 0, width = 0, ldim = 1, mem = (\<lambda>k. a)\<rparr>"

text \<open>
  \<^verbatim>\<open>Snapshot\<close> on sequential matrices.  \<open>invNorms\<close> and \<open>estMap\<close> are filled only when
  one of the two channels saves.
\<close>

definition Snapshot_grid ::
  "Real list \<Rightarrow> Int_t list \<Rightarrow> bool \<Rightarrow> Int_t \<Rightarrow> Int_t \<Rightarrow> error + Real Matrix" where
  "Snapshot_grid estimates preimage deflate realSize imagSize =
     (case (if deflate then RestoreOrdering preimage estimates else Inr estimates) of
        Inl e \<Rightarrow> Inl e
      | Inr invNorms \<Rightarrow> ReshapeIntoGrid realSize imagSize invNorms (empty_Matrix NaN))"

definition Snapshot_numSave ::
  "Real Matrix \<Rightarrow> Int_t \<Rightarrow> string \<Rightarrow> 'fmt \<Rightarrow> 'fmt snapshot_state \<Rightarrow> 'fmt snapshot_state" where
  "Snapshot_numSave estMap numIts numBase numFormat s =
     (Write estMap (snapshot_name numBase numIts) numFormat s)\<lparr>numSaveCount := 0\<rparr>"

definition Snapshot_imgSave ::
  "(Real \<Rightarrow> Real) \<Rightarrow> Real Matrix \<Rightarrow> Int_t \<Rightarrow> string \<Rightarrow> 'fmt \<Rightarrow> 'fmt snapshot_state \<Rightarrow>
   'fmt snapshot_state" where
  "Snapshot_imgSave Log estMap numIts imgBase imgFormat s =
     (let estMap' = EntrywiseMap estMap Log;
          s1 = Write estMap' (snapshot_name imgBase numIts) imgFormat s;
          colorMap' = colorMap s1;
          s2 = s1\<lparr>colorMap := GRAYSCALE_DISCRETE\<rparr>;
          s3 = Write estMap' (snapshot_name imgBase numIts @ ''-discrete'') imgFormat s2;
          s4 = s3\<lparr>colorMap := colorMap'\<rparr>
      in s4\<lparr>imgSaveCount := 0\<rparr>)"

definition Snapshot ::
  "(Real \<Rightarrow> Real) \<Rightarrow> Real list \<Rightarrow> Int_t list \<Rightarrow> Int_t \<Rightarrow> bool \<Rightarrow> Int_t \<Rightarrow> Int_t \<Rightarrow>
   Int_t \<Rightarrow> string \<Rightarrow> 'fmt \<Rightarrow> Int_t \<Rightarrow> string \<Rightarrow> 'fmt \<Rightarrow>
   'fmt snapshot_state \<Rightarrow> error + 'fmt snapshot_state" where
  "Snapshot Log estimates preimage numIts deflate realSize imagSize
       numFreq numBase numFormat imgFreq imgBase imgFormat s =
     (if realSize \<noteq> 0 \<and> imagSize \<noteq> 0 then
        (let numSave = (0 < sint numFreq \<and> sint numFreq \<le> sint (numSaveCount s));
             imgSave = (0 < sint imgFreq \<and> sint imgFreq \<le> sint (imgSaveCount s))
         in case (if numSave \<or> imgSave
                  then Snapshot_grid estimates preimage deflate realSize imagSize
                  else Inr (empty_Matrix NaN)) of
              Inl e \<Rightarrow> Inl e
            | Inr estMap \<Rightarrow>
                (let s1 = (if numSave then Snapshot_numSave estMap numIts numBase numFormat s
                           else s);
                     s2 = (if imgSave then Snapshot_imgSave Log estMap numIts imgBase imgFormat s1
                           else s1)
                 in Inr s2))
      else Inr s)"

text \<open>
  The columns of a matrix with \<open>R\<close> rows, \<open>I\<close> columns and leading dimension \<open>R\<close> whose
  buffer holds the vector \<open>v\<close>: entry \<open>(i, j)\<close> is \<open>v[i + j * R]\<close>.
\<close>

definition grid_of :: "nat \<Rightarrow> nat \<Rightarrow> 'a list \<Rightarrow> 'a list list" where
  "grid_of R I v = map (\<lambda>j. map (\<lambda>i. v ! (i + j * R)) [0..<R]) [0..<I]"

section \<open>FixColumns\<close>

text \<open>
  Modelled from the spec: \<^verbatim>\<open>blas::Nrm2\<close>, \<^verbatim>\<open>FrobeniusNorm\<close>, \<^verbatim>\<open>MakeGaussian\<close> and
  \<^verbatim>\<open>Scale\<close> are not among the sources.  Here a matrix is the list of its columns, every
  view \<^verbatim>\<open>View( X, 0, j, m, 1 )\<close> is a whole column, and the field is the real one.  The two
  norms of a column are its Euclidean norm: the square root of the sum of the squares of
  its entries, every operation rounded.  \<^verbatim>\<open>Scale\<close> multiplies every entry.
\<close>

fun Real_sqrt :: "rounding \<Rightarrow> Real \<Rightarrow> Real" where
  "Real_sqrt rnd NaN = NaN"
| "Real_sqrt rnd NegInf = NaN"
| "Real_sqrt rnd PosInf = PosInf"
| "Real_sqrt rnd (Fin a) = (if a < 0 then NaN else rnd (sqrt a))"

definition Nrm2 :: "rounding \<Rightarrow> Real list \<Rightarrow> Real" where
  "Nrm2 rnd x = Real_sqrt rnd (foldl (\<lambda>acc a. Real_add rnd acc (Real_mul rnd a a)) (Fin 0) x)"

definition FrobeniusNorm :: "rounding \<Rightarrow> Real list \<Rightarrow> Real" where
  "FrobeniusNorm rnd x = Nrm2 rnd x"

definition Scale :: "rounding \<Rightarrow> Real \<Rightarrow> Real list \<Rightarrow> Real list" where
  "Scale rnd alpha x = map (Real_mul rnd alpha) x"

text \<open>
  The random generator is the sequence \<open>gauss\<close> of the samples it will deliver and the
  number \<open>pos\<close> of samples taken so far.  \<^verbatim>\<open>MakeGaussian( x )\<close> overwrites the column with
  the next samples.
\<close>

definition MakeGaussian :: "(nat \<Rightarrow> Real) \<Rightarrow> Real list \<Rightarrow> nat \<Rightarrow> Real list \<times> nat" where
  "MakeGaussian gauss x pos = (map (\<lambda>i. gauss (pos + i)) [0..<length x], pos + length x)"

text \<open>The generator that delivers the same sample every time.\<close>

definition constant_samples :: "Real \<Rightarrow> nat \<Rightarrow> Real" where
  "constant_samples a k = a"

text \<open>\<^verbatim>\<open>ColumnNorms( X, norms )\<close>: entry \<open>j\<close> of \<open>norms\<close> is \<^verbatim>\<open>blas::Nrm2\<close> of column \<open>j\<close>.\<close>

definition ColumnNorms :: "rounding \<Rightarrow> Real list list \<Rightarrow> Real list" where
  "ColumnNorms rnd X = map (Nrm2 rnd) X"

text \<open>
  \<^verbatim>\<open>FixColumns\<close> on a sequential matrix.  Besides the matrix and the generator, the loop
  keeps the list of the values of \<^verbatim>\<open>norm\<close> (here \<open>nrm'\<close>) at
  \<^verbatim>\<open>Scale( Real(1)/norm, x )\<close>, one for every column: the divisors.
\<close>

function FixColumns_loop ::
  "rounding \<Rightarrow> (nat \<Rightarrow> Real) \<Rightarrow> Real list \<Rightarrow> nat \<Rightarrow> nat \<Rightarrow>
   Real list list \<times> nat \<times> Real list \<Rightarrow> error + Real list list \<times> nat \<times> Real list" where
  "FixColumns_loop rnd gauss norms n j (X, pos, divisors) =
     (if j < n then
        (case Get X (int j) of
           Inl e \<Rightarrow> Inl e
         | Inr x \<Rightarrow>
             (case Get norms (int j) of
                Inl e \<Rightarrow> Inl e
              | Inr nrm \<Rightarrow>
                  (let (x', pos', nrm') =
                         (if Real_eq nrm (Fin 0)
                          then (let (g, p) = MakeGaussian gauss x pos
                                in (g, p, FrobeniusNorm rnd g))
                          else (x, pos, nrm))
                   in case Set X (int j) (Scale rnd (Real_div rnd (Fin 1) nrm') x') of
                        Inl e \<Rightarrow> Inl e
                      | Inr X' \<Rightarrow>
                          FixColumns_loop rnd gauss norms n (Suc j)
                            (X', pos', divisors @ [nrm']))))
      else Inr (X, pos, divisors))"
  by pat_completeness auto
termination
  by (relation "measure (\<lambda>(rnd, gauss, norms, n, j, s). n - j)") auto

declare FixColumns_loop.simps [simp del]

definition FixColumns ::
  "rounding \<Rightarrow> (nat \<Rightarrow> Real) \<Rightarrow> Real list list \<Rightarrow> nat \<Rightarrow>
   error + Real list list \<times> nat \<times> Real list" where
  "FixColumns rnd gauss X pos =
     FixColumns_loop rnd gauss (ColumnNorms rnd X) (length X) 0 (X, pos, [])"

section \<open>The chunk sizes of the driver\<close>

text \<open>
  The driver \<^verbatim>\<open>ChunkedTriangularPseudospectrum\<close> declares the chunk counts \<open>numReal\<close>
  and \<open>numImag\<close> as \<^verbatim>\<open>Real\<close> (a \<^verbatim>\<open>double\<close>) and the sample counts as \<^verbatim>\<open>Int\<close>.
  An \<^verbatim>\<open>Int\<close> operand of a mixed operation is converted to \<^verbatim>\<open>Real\<close>, the operation is
  the floating-point one, and the initialisation of an \<^verbatim>\<open>Int\<close> truncates the result
  towards zero.
\<close>

definition Real_of_Int :: "rounding \<Rightarrow> Int_t \<Rightarrow> Real" where
  "Real_of_Int rnd i = rnd (real_of_int (sint i))"

text \<open>
  \<^verbatim>\<open>const Real numReal = Input("--numReal","num real chunks",2)\<close>, and the same for
  \<open>numImag\<close>: the default value is an \<^verbatim>\<open>int\<close>, unlike the \<^verbatim>\<open>0.\<close> and \<^verbatim>\<open>1e-6\<close> of
  the inputs that are read as \<^verbatim>\<open>Real\<close>, so the chunk count is read as an \<^verbatim>\<open>Int\<close> and
  converted when it initialises the variable.
\<close>

definition ChunkCount :: "rounding \<Rightarrow> Int_t \<Rightarrow> Real" where
  "ChunkCount rnd input = Real_of_Int rnd input"

definition truncate :: "real \<Rightarrow> int" where
  "truncate a = (if 0 \<le> a then \<lfloor>a\<rfloor> else \<lceil>a\<rceil>)"

fun Int_of_Real :: "Real \<Rightarrow> error + Int_t" where
  "Int_of_Real (Fin a) =
     (if - (2 ^ 31) \<le> truncate a \<and> truncate a < 2 ^ 31 then Inr (word_of_int (truncate a))
      else Inl NotRepresentable)"
| "Int_of_Real x = Inl NotRepresentable"

text \<open>
  \<^verbatim>\<open>xBlock = realSize / numReal\<close> and \<^verbatim>\<open>yBlock = imagSize / numImag\<close>: the block size of
  an axis with \<open>numSamples\<close> samples and \<open>num\<close> chunks.
\<close>

definition Block :: "rounding \<Rightarrow> Int_t \<Rightarrow> Real \<Rightarrow> error + Int_t" where
  "Block rnd numSamples num = Int_of_Real (Real_div rnd (Real_of_Int rnd numSamples) num)"

text \<open>
  \<^verbatim>\<open>xLeftover = realSize - (numReal-1)*xBlock\<close> and
  \<^verbatim>\<open>yLeftover = imagSize - (numImag-1)*yBlock\<close>.
\<close>

definition Leftover :: "rounding \<Rightarrow> Int_t \<Rightarrow> Real \<Rightarrow> Int_t \<Rightarrow> error + Int_t" where
  "Leftover rnd numSamples num block =
     Int_of_Real
       (Real_sub rnd (Real_of_Int rnd numSamples)
          (Real_mul rnd (Real_sub rnd num (Fin 1)) (Real_of_Int rnd block)))"

text \<open>
  \<^verbatim>\<open>realChunkSize = ( realChunk==numReal-1 ? xLeftover : xBlock )\<close>, and the same for
  \<open>imagChunkSize\<close>.
\<close>

definition ChunkSize :: "rounding \<Rightarrow> Real \<Rightarrow> Int_t \<Rightarrow> Int_t \<Rightarrow> Int_t \<Rightarrow> Int_t" where
  "ChunkSize rnd num block leftover chunk =
     (if Real_eq (Real_of_Int rnd chunk) (Real_sub rnd num (Fin 1)) then leftover else block)"

text \<open>
  The loop \<^verbatim>\<open>for( Int realChunk=0; realChunk<numReal; ++realChunk )\<close> (and the one over
  \<open>imagChunk\<close>), with the chunk sizes of its iterations collected in order.  The counter
  is an \<^verbatim>\<open>Int\<close> and the bound a \<^verbatim>\<open>Real\<close>: when the bound is larger than every \<^verbatim>\<open>Int\<close>
  the loop does not end, which is the value \<open>None\<close>.
\<close>

partial_function (option) ChunkSizes_loop ::
  "rounding \<Rightarrow> Real \<Rightarrow> Int_t \<Rightarrow> Int_t \<Rightarrow> Int_t \<Rightarrow> Int_t list \<Rightarrow> Int_t list option" where
  "ChunkSizes_loop rnd num block leftover chunk sizes =
     (if Real_lt (Real_of_Int rnd chunk) num
      then ChunkSizes_loop rnd num block leftover (chunk + 1)
             (sizes @ [ChunkSize rnd num block leftover chunk])
      else Some sizes)"

text \<open>The chunk sizes along one axis, as the driver computes them.\<close>

definition ChunkSizes :: "rounding \<Rightarrow> Int_t \<Rightarrow> Real \<Rightarrow> (error + Int_t list) option" where
  "ChunkSizes rnd numSamples num =
     (case Block rnd numSamples num of
        Inl e \<Rightarrow> Some (Inl e)
      | Inr block \<Rightarrow>
          (case Leftover rnd numSamples num block of
             Inl e \<Rightarrow> Some (Inl e)
           | Inr leftover \<Rightarrow>
               map_option Inr (ChunkSizes_loop rnd num block leftover 0 [])))"

text \<open>
  What the theorem about the chunk sizes asks of the rounding: integers up to \<open>2^31\<close> in
  magnitude are floating-point numbers, and a number between 1 and \<open>2^31\<close> is rounded to a
  finite number with a relative error of at most \<open>2^-53\<close>.  Rounding to the nearest
  \<^verbatim>\<open>double\<close> is such a rounding, and so is exact arithmetic.
\<close>

definition rounds_like_double :: "rounding \<Rightarrow> bool" where
  "rounds_like_double rnd =
     ((\<forall>k :: int. \<bar>k\<bar> \<le> 2 ^ 31 \<longrightarrow> rnd (real_of_int k) = Fin (real_of_int k)) \<and>
      (\<forall>x. 1 \<le> x \<and> x \<le> 2 ^ 31 \<longrightarrow> (\<exists>y. rnd x = Fin y \<and> \<bar>y - x\<bar> \<le> x / 2 ^ 53)))"

section \<open>The KKT assembly of the second-order cone solver\<close>

text \<open>
  Every overload of \<^verbatim>\<open>socp::affine::KKT\<close> is \<^verbatim>\<open>LogicError("This routine is not yet
  finished")\<close> followed by a comment.  The matrix types of the overloads are not among
  the sources and no overload looks at an argument, so they are type parameters; the
  result is the exception together with the matrix \<open>J\<close> that was passed by reference.
\<close>

definition KKT ::
  "'matrix \<Rightarrow> 'matrix \<Rightarrow> 'matrix \<Rightarrow> 'matrix \<Rightarrow> 'int_matrix \<Rightarrow> 'int_matrix \<Rightarrow>
   'matrix \<Rightarrow> bool \<Rightarrow> (error + unit) \<times> 'matrix" where
  "KKT A G s z orders firstInds J onlyLower =
     (Inl (LogicError ''This routine is not yet finished''), J)"

definition KKT_Dist ::
  "'dist_matrix \<Rightarrow> 'dist_matrix \<Rightarrow> 'dist_matrix \<Rightarrow> 'dist_matrix \<Rightarrow>
   'dist_int_matrix \<Rightarrow> 'dist_int_matrix \<Rightarrow>
   'dist_matrix \<Rightarrow> bool \<Rightarrow> (error + unit) \<times> 'dist_matrix" where
  "KKT_Dist A G sPre zPre ordersPre firstIndsPre JPre onlyLower =
     (Inl (LogicError ''This routine is not yet finished''), JPre)"

definition KKT_Sparse ::
  "'sparse_matrix \<Rightarrow> 'sparse_matrix \<Rightarrow> 'matrix \<Rightarrow> 'matrix \<Rightarrow> 'int_matrix \<Rightarrow> 'int_matrix \<Rightarrow>
   'sparse_matrix \<Rightarrow> bool \<Rightarrow> (error + unit) \<times> 'sparse_matrix" where
  "KKT_Sparse A G s z orders firstInds J onlyLower =
     (Inl (LogicError ''This routine is not yet finished''), J)"

definition KKT_DistSparse ::
  "'dist_sparse_matrix \<Rightarrow> 'dist_sparse_matrix \<Rightarrow> 'dist_multi_vec \<Rightarrow> 'dist_multi_vec \<Rightarrow>
   'dist_int_multi_vec \<Rightarrow> 'dist_int_multi_vec \<Rightarrow>
   'dist_sparse_matrix \<Rightarrow> bool \<Rightarrow> (error + unit) \<times> 'dist_sparse_matrix" where
  "KKT_DistSparse A G s z orders firstInds J onlyLower =
     (Inl (LogicError ''This routine is not yet finished''), J)"

section \<open>Properties of RestoreOrdering\<close>

subsection \<open>The identity preimage\<close>

lemma RestoreOrdering_loop_identity:
  assumes "\<forall>k<length p. sint (p ! k) = int k" and "length p \<le> length x"
  shows "RestoreOrdering_loop p x j x = Inr x"
  using assms
proof (induction "length p - j" arbitrary: j)
  case 0
  then show ?case by (subst RestoreOrdering_loop.simps) simp
next
  case (Suc d)
  then have j: "j < length p" by simp
  from Suc have IH: "RestoreOrdering_loop p x (Suc j) x = Inr x" by simp
  show ?case using j Suc.prems IH
    by (subst RestoreOrdering_loop.simps) (simp add: Get_def Set_def)
qed

lemma RestoreOrdering2_loop_identity:
  assumes "\<forall>k<length p. sint (p ! k) = int k" and "length p \<le> length x" and "length p \<le> length y"
  shows "RestoreOrdering2_loop p x y j (x, y) = Inr (x, y)"
  using assms
proof (induction "length p - j" arbitrary: j)
  case 0
  then show ?case by (subst RestoreOrdering2_loop.simps) simp
next
  case (Suc d)
  then have j: "j < length p" by simp
  from Suc have IH: "RestoreOrdering2_loop p x y (Suc j) (x, y) = Inr (x, y)" by simp
  show ?case using j Suc.prems IH
    by (subst RestoreOrdering2_loop.simps) (simp add: Get_def Set_def)
qed

text \<open>
  Claim C7.  With the identity preimage (\<open>preimage[j] = j\<close> for every \<open>j\<close>), on vectors
  of height \<open>n\<close>, both overloads of RestoreOrdering return their input unchanged.
\<close>

theorem RestoreOrdering_identity:
  assumes "length preimage = n" and "length x = n" and "length y = n"
    and "\<forall>j<n. sint (preimage ! j) = int j"
  shows "RestoreOrdering preimage x = Inr x \<and> RestoreOrdering2 preimage x y = Inr (x, y)"
  using assms
  by (simp add: RestoreOrdering_def RestoreOrdering2_def RestoreOrdering_loop_identity
      RestoreOrdering2_loop_identity)

theorem RestoreOrdering_identity_witness:
  "RestoreOrdering [0, 1, 2 :: Int_t] [''a'', ''b'', ''c''] = Inr [''a'', ''b'', ''c''] \<and>
   RestoreOrdering2 [0, 1, 2 :: Int_t] [''a'', ''b'', ''c''] [7, 8, 9 :: int]
     = Inr ([''a'', ''b'', ''c''], [7, 8, 9])"
proof -
  have "\<forall>j<3. sint ([0, 1, 2 :: Int_t] ! j) = int j"
    by (simp add: less_Suc_eq numeral_3_eq_3)
  then show ?thesis
    using RestoreOrdering_identity [of "[0, 1, 2]" 3 "[''a'', ''b'', ''c'']" "[7, 8, 9 :: int]"]
    by simp
qed

subsection \<open>A permutation as preimage\<close>

lemma RestoreOrdering_loop_result:
  assumes "\<forall>k<length p. 0 \<le> sint (p ! k) \<and> sint (p ! k) < int (length x)"
    and "length p \<le> length xCopy"
  shows "\<exists>x'. RestoreOrdering_loop p xCopy j x = Inr x' \<and> length x' = length x \<and>
           (\<forall>i. (\<forall>k. j \<le> k \<and> k < length p \<longrightarrow> nat (sint (p ! k)) \<noteq> i) \<longrightarrow> x' ! i = x ! i) \<and>
           (distinct (map sint p) \<longrightarrow>
              (\<forall>k. j \<le> k \<and> k < length p \<longrightarrow> x' ! nat (sint (p ! k)) = xCopy ! k))"
  using assms
proof (induction "length p - j" arbitrary: j x)
  case 0
  then show ?case by (subst RestoreOrdering_loop.simps) auto
next
  case (Suc d)
  then have j: "j < length p" by simp
  let ?x1 = "x[nat (sint (p ! j)) := xCopy ! j]"
  have rng: "0 \<le> sint (p ! j)" "sint (p ! j) < int (length x)"
    using Suc.prems(1) j by auto
  have step: "RestoreOrdering_loop p xCopy j x = RestoreOrdering_loop p xCopy (Suc j) ?x1"
    using j rng Suc.prems(2)
    by (subst RestoreOrdering_loop.simps) (simp add: Get_def Set_def)
  have "d = length p - Suc j" using Suc.hyps(2) by simp
  moreover have "\<forall>k<length p. 0 \<le> sint (p ! k) \<and> sint (p ! k) < int (length ?x1)"
    using Suc.prems(1) by simp
  ultimately obtain x' where
    r: "RestoreOrdering_loop p xCopy (Suc j) ?x1 = Inr x'" and
    l: "length x' = length ?x1" and
    u: "\<forall>i. (\<forall>k. Suc j \<le> k \<and> k < length p \<longrightarrow> nat (sint (p ! k)) \<noteq> i) \<longrightarrow> x' ! i = ?x1 ! i" and
    h: "distinct (map sint p) \<longrightarrow>
          (\<forall>k. Suc j \<le> k \<and> k < length p \<longrightarrow> x' ! nat (sint (p ! k)) = xCopy ! k)"
    using Suc.hyps(1) [of "Suc j" ?x1] Suc.prems(2) by blast
  have u': "\<forall>i. (\<forall>k. j \<le> k \<and> k < length p \<longrightarrow> nat (sint (p ! k)) \<noteq> i) \<longrightarrow> x' ! i = x ! i"
  proof (intro allI impI)
    fix i assume a: "\<forall>k. j \<le> k \<and> k < length p \<longrightarrow> nat (sint (p ! k)) \<noteq> i"
    then have "x' ! i = ?x1 ! i" using u by simp
    moreover have "nat (sint (p ! j)) \<noteq> i" using a j by blast
    ultimately show "x' ! i = x ! i" by simp
  qed
  have h': "distinct (map sint p) \<longrightarrow>
          (\<forall>k. j \<le> k \<and> k < length p \<longrightarrow> x' ! nat (sint (p ! k)) = xCopy ! k)"
  proof (intro allI impI)
    fix k assume dist: "distinct (map sint p)" and k: "j \<le> k \<and> k < length p"
    show "x' ! nat (sint (p ! k)) = xCopy ! k"
    proof (cases "k = j")
      case False
      then show ?thesis using h dist k by simp
    next
      case True
      have "\<forall>k'. Suc j \<le> k' \<and> k' < length p \<longrightarrow> nat (sint (p ! k')) \<noteq> nat (sint (p ! j))"
      proof (intro allI impI)
        fix k' assume k': "Suc j \<le> k' \<and> k' < length p"
        then have "map sint p ! k' \<noteq> map sint p ! j"
          using dist j by (simp add: nth_eq_iff_index_eq del: nth_map)
        then have "sint (p ! k') \<noteq> sint (p ! j)" using k' j by simp
        moreover have "0 \<le> sint (p ! k')" using Suc.prems(1) k' by simp
        ultimately show "nat (sint (p ! k')) \<noteq> nat (sint (p ! j))" using rng by simp
      qed
      then have "x' ! nat (sint (p ! j)) = ?x1 ! nat (sint (p ! j))" using u by blast
      then show ?thesis using True rng by simp
    qed
  qed
  show ?case using step r l u' h' by simp
qed

lemma RestoreOrdering2_loop_pair:
  assumes "RestoreOrdering_loop p xCopy j x = Inr x'"
    and "RestoreOrdering_loop p yCopy j y = Inr y'"
  shows "RestoreOrdering2_loop p xCopy yCopy j (x, y) = Inr (x', y')"
  using assms
proof (induction "length p - j" arbitrary: j x y)
  case 0
  then show ?case
    by (subst RestoreOrdering2_loop.simps, subst (asm) (1 2) RestoreOrdering_loop.simps) simp
next
  case (Suc d)
  then have j: "j < length p" by simp
  have d: "d = length p - Suc j" using Suc.hyps(2) by simp
  show ?case
    using Suc.prems j Suc.hyps(1) [OF d]
    by (subst RestoreOrdering2_loop.simps, subst (asm) (1 2) RestoreOrdering_loop.simps)
      (auto split: sum.splits)
qed

lemma is_permutation_range:
  assumes "is_permutation p" and "k < length p"
  shows "0 \<le> sint (p ! k) \<and> sint (p ! k) < int (length p)"
proof -
  have "sint (p ! k) \<in> set (map sint p)" using assms(2) by simp
  also have "set (map sint p) = set (map int [0..<length p])"
    using assms(1) unfolding is_permutation_def by (metis set_mset_mset)
  finally show ?thesis by auto
qed

lemma is_permutation_distinct:
  assumes "is_permutation p"
  shows "distinct (map sint p)"
proof -
  have "distinct (map int [0..<length p])" by (simp add: distinct_map)
  then show ?thesis
    using assms unfolding is_permutation_def by (metis mset_eq_imp_distinct_iff)
qed

lemma is_permutation_mset_nat:
  assumes "is_permutation p"
  shows "mset (map (\<lambda>k. nat (sint (p ! k))) [0..<length p]) = mset [0..<length p]"
proof -
  have "map nat (map sint p) = map nat (map sint (map (nth p) [0..<length p]))"
    by (simp only: map_nth)
  then have "map (\<lambda>k. nat (sint (p ! k))) [0..<length p] = map nat (map sint p)"
    by (simp only: map_map comp_def)
  then have "mset (map (\<lambda>k. nat (sint (p ! k))) [0..<length p]) = image_mset nat (mset (map sint p))"
    by (simp only: mset_map)
  also have "\<dots> = image_mset nat (mset (map int [0..<length p]))"
    using assms unfolding is_permutation_def by simp
  also have "\<dots> = mset [0..<length p]"
    by (simp add: multiset.map_comp comp_def flip: mset_map)
  finally show ?thesis .
qed

lemma permuted_mset:
  assumes "length z' = n" and "length z = n"
    and "mset (map d [0..<n]) = mset [0..<n]"
    and "\<forall>j<n. z' ! d j = z ! j"
  shows "mset z' = mset z"
proof -
  have "z = map (\<lambda>j. z' ! d j) [0..<n]"
    using assms(2,4) by (simp add: list_eq_iff_nth_eq)
  then have "mset z = image_mset (nth z') (mset (map d [0..<n]))"
    by (simp add: multiset.map_comp comp_def flip: mset_map)
  also have "\<dots> = mset (map (nth z') [0..<n])" using assms(3) by simp
  also have "map (nth z') [0..<n] = z'" using assms(1) map_nth by metis
  finally show ?thesis by simp
qed

text \<open>
  Claim C3.  When the preimage vector of height \<open>n\<close> is a permutation of \<open>0, ..., n - 1\<close>
  and \<open>x\<close>, \<open>y\<close> have height \<open>n\<close>, the two-vector RestoreOrdering returns vectors
  \<open>x'\<close>, \<open>y'\<close> with \<open>x'[preimage[j]] = x[j]\<close> and \<open>y'[preimage[j]] = y[j]\<close> for every
  \<open>j\<close>; the pairs \<open>(x'[i], y'[i])\<close> are the pairs \<open>(x[j], y[j])\<close>, each exactly once.
\<close>

theorem RestoreOrdering2_permutation:
  assumes "is_permutation preimage" and "length preimage = n"
    and "length x = n" and "length y = n"
  shows "\<exists>x' y'. RestoreOrdering2 preimage x y = Inr (x', y') \<and>
           length x' = n \<and> length y' = n \<and>
           (\<forall>j<n. x' ! nat (sint (preimage ! j)) = x ! j \<and>
                   y' ! nat (sint (preimage ! j)) = y ! j) \<and>
           mset (zip x' y') = mset (zip x y)"
proof -
  have rx: "\<forall>k<length preimage. 0 \<le> sint (preimage ! k) \<and> sint (preimage ! k) < int (length x)"
    using is_permutation_range [OF assms(1)] assms(2,3) by simp
  have ry: "\<forall>k<length preimage. 0 \<le> sint (preimage ! k) \<and> sint (preimage ! k) < int (length y)"
    using is_permutation_range [OF assms(1)] assms(2,4) by simp
  have dist: "distinct (map sint preimage)" by (rule is_permutation_distinct [OF assms(1)])
  obtain x' where x': "RestoreOrdering_loop preimage x 0 x = Inr x'" "length x' = length x"
    "\<forall>k. k < length preimage \<longrightarrow> x' ! nat (sint (preimage ! k)) = x ! k"
    using RestoreOrdering_loop_result [OF rx, of x 0] assms(2,3) dist by auto
  obtain y' where y': "RestoreOrdering_loop preimage y 0 y = Inr y'" "length y' = length y"
    "\<forall>k. k < length preimage \<longrightarrow> y' ! nat (sint (preimage ! k)) = y ! k"
    using RestoreOrdering_loop_result [OF ry, of y 0] assms(2,4) dist by auto
  have res: "RestoreOrdering2 preimage x y = Inr (x', y')"
    unfolding RestoreOrdering2_def by (rule RestoreOrdering2_loop_pair [OF x'(1) y'(1)])
  have dn: "\<forall>j<n. nat (sint (preimage ! j)) < n"
    using is_permutation_range [OF assms(1)] assms(2) by (simp add: nat_less_iff)
  have "\<forall>j<n. zip x' y' ! nat (sint (preimage ! j)) = zip x y ! j"
    using x' y' dn assms(2,3,4) by simp
  moreover have "mset (map (\<lambda>k. nat (sint (preimage ! k))) [0..<n]) = mset [0..<n]"
    using is_permutation_mset_nat [OF assms(1)] assms(2) by simp
  ultimately have "mset (zip x' y') = mset (zip x y)"
    using permuted_mset [of "zip x' y'" n "zip x y" "\<lambda>k. nat (sint (preimage ! k))"]
      x'(2) y'(2) assms(3,4) by simp
  then show ?thesis using res x' y' assms(2,3,4) by simp
qed

theorem RestoreOrdering2_permutation_witness:
  "RestoreOrdering2 [2, 0, 1 :: Int_t] [''a'', ''b'', ''c''] [7, 8, 9 :: int]
     = Inr ([''b'', ''c'', ''a''], [8, 9, 7])"
proof -
  have p: "is_permutation [2, 0, 1 :: Int_t]"
    by (simp add: is_permutation_def upt_rec numeral_3_eq_3)
  obtain x' y' where r: "RestoreOrdering2 [2, 0, 1 :: Int_t] [''a'', ''b'', ''c''] [7, 8, 9 :: int] = Inr (x', y')"
    and l: "length x' = 3" "length y' = 3"
    and e: "\<forall>j<3. x' ! nat (sint ([2, 0, 1 :: Int_t] ! j)) = [''a'', ''b'', ''c''] ! j \<and>
                   y' ! nat (sint ([2, 0, 1 :: Int_t] ! j)) = [7, 8, 9 :: int] ! j"
    using RestoreOrdering2_permutation [OF p, of 3 "[''a'', ''b'', ''c'']" "[7, 8, 9 :: int]"]
    by auto
  have "x' ! 0 = ''b'' \<and> x' ! 1 = ''c'' \<and> x' ! 2 = ''a'' \<and> y' ! 0 = 8 \<and> y' ! 1 = 9 \<and> y' ! 2 = 7"
    using e [rule_format, of 0] e [rule_format, of 1] e [rule_format, of 2] by simp
  moreover have "x' = [x' ! 0, x' ! 1, x' ! 2] \<and> y' = [y' ! 0, y' ! 1, y' ! 2]"
    using l by (auto simp: numeral_3_eq_3 length_Suc_conv)
  ultimately have "x' = [''b'', ''c'', ''a''] \<and> y' = [8, 9, 7]"
    by simp
  then show ?thesis using r by simp
qed

section \<open>Properties of CapEstimates and FindConverged\<close>

lemma CapEstimates_loop_result:
  assumes "length est = n"
  shows "\<exists>est'. CapEstimates_loop c n j est = Inr est' \<and> length est' = n \<and>
           (\<forall>i<n. est' ! i =
              (if j \<le> i \<and> (isnan (est ! i) \<or> Real_ge (est ! i) c) then c else est ! i))"
  using assms
proof (induction "n - j" arbitrary: j est)
  case 0
  then show ?case by (subst CapEstimates_loop.simps) auto
next
  case (Suc d)
  then have j: "j < n" by simp
  let ?v = "if isnan (est ! j) \<or> Real_ge (est ! j) c then c else est ! j"
  let ?est1 = "est[j := ?v]"
  have step: "CapEstimates_loop c n j est = CapEstimates_loop c n (Suc j) ?est1"
    using j Suc.prems by (subst CapEstimates_loop.simps) (simp add: Get_def Set_def)
  have d: "d = n - Suc j" using Suc.hyps(2) by simp
  have len: "length ?est1 = n" using Suc.prems by simp
  obtain est' where r: "CapEstimates_loop c n (Suc j) ?est1 = Inr est'" and l: "length est' = n"
    and e: "\<forall>i<n. est' ! i =
              (if Suc j \<le> i \<and> (isnan (?est1 ! i) \<or> Real_ge (?est1 ! i) c) then c else ?est1 ! i)"
    using Suc.hyps(1) [OF d len] by blast
  have "\<forall>i<n. est' ! i =
              (if j \<le> i \<and> (isnan (est ! i) \<or> Real_ge (est ! i) c) then c else est ! i)"
  proof (intro allI impI)
    fix i assume i: "i < n"
    show "est' ! i = (if j \<le> i \<and> (isnan (est ! i) \<or> Real_ge (est ! i) c) then c else est ! i)"
    proof (cases "i = j")
      case True
      then show ?thesis using e i Suc.prems by simp
    next
      case False
      then have a: "?est1 ! i = est ! i" by simp
      have b: "(Suc j \<le> i) = (j \<le> i)" using False by auto
      have "est' ! i =
          (if Suc j \<le> i \<and> (isnan (?est1 ! i) \<or> Real_ge (?est1 ! i) c) then c else ?est1 ! i)"
        using e i by blast
      then show ?thesis by (simp only: a b)
    qed
  qed
  then show ?case using step r l by simp
qed

lemma Real_le_refl: "x \<noteq> NaN \<Longrightarrow> Real_le x x"
  by (cases x) simp_all

lemma Real_le_total: "x \<noteq> NaN \<Longrightarrow> y \<noteq> NaN \<Longrightarrow> Real_le x y \<or> Real_le y x"
  by (cases x; cases y) auto

lemma FindConverged_loop_result:
  assumes "length lst = n" and "length cur = n" and "length conv = n" and "n \<le> length counts"
  shows "\<exists>conv' counts'.
           FindConverged_loop rnd c lst cur maxDiff n j (conv, counts) = Inr (conv', counts') \<and>
           length conv' = n \<and> length counts' = length counts \<and>
           (\<forall>i<n. conv' ! i =
              (if j \<le> i \<and> converged_test rnd c (lst ! i) (cur ! i) maxDiff then 1 else conv ! i)) \<and>
           (\<forall>i<length counts. counts' ! i =
              (if j \<le> i \<and> i < n \<and> \<not> converged_test rnd c (lst ! i) (cur ! i) maxDiff
               then counts ! i + 1 else counts ! i))"
  using assms
proof (induction "n - j" arbitrary: j conv counts)
  case 0
  then show ?case by (subst FindConverged_loop.simps) auto
next
  case (Suc d)
  then have j: "j < n" by simp
  have d: "d = n - Suc j" using Suc.hyps(2) by simp
  let ?t = "\<lambda>i. converged_test rnd c (lst ! i) (cur ! i) maxDiff"
  show ?case
  proof (cases "?t j")
    case True
    let ?conv1 = "conv[j := 1]"
    have step: "FindConverged_loop rnd c lst cur maxDiff n j (conv, counts) =
                FindConverged_loop rnd c lst cur maxDiff n (Suc j) (?conv1, counts)"
      using j Suc.prems True by (subst FindConverged_loop.simps) (simp add: Get_def Set_def)
    have len: "length ?conv1 = n" using Suc.prems by simp
    obtain conv' counts' where
      r: "FindConverged_loop rnd c lst cur maxDiff n (Suc j) (?conv1, counts) = Inr (conv', counts')"
      and l: "length conv' = n" "length counts' = length counts"
      and e1: "\<forall>i<n. conv' ! i = (if Suc j \<le> i \<and> ?t i then 1 else ?conv1 ! i)"
      and e2: "\<forall>i<length counts. counts' ! i =
              (if Suc j \<le> i \<and> i < n \<and> \<not> ?t i then counts ! i + 1 else counts ! i)"
      using Suc.hyps(1) [OF d Suc.prems(1,2) len Suc.prems(4)] by blast
    have "\<forall>i<n. conv' ! i = (if j \<le> i \<and> ?t i then 1 else conv ! i)"
    proof (intro allI impI)
      fix i assume i: "i < n"
      show "conv' ! i = (if j \<le> i \<and> ?t i then 1 else conv ! i)"
      proof (cases "i = j")
        case True
        then show ?thesis using e1 i Suc.prems \<open>?t j\<close> by simp
      next
        case False
        then have a: "?conv1 ! i = conv ! i" by simp
        have b: "(Suc j \<le> i) = (j \<le> i)" using False by auto
        have "conv' ! i = (if Suc j \<le> i \<and> ?t i then 1 else ?conv1 ! i)"
          using e1 i by blast
        then show ?thesis by (simp only: a b)
      qed
    qed
    moreover have "\<forall>i<length counts. counts' ! i =
              (if j \<le> i \<and> i < n \<and> \<not> ?t i then counts ! i + 1 else counts ! i)"
    proof (intro allI impI)
      fix i assume i: "i < length counts"
      have "(Suc j \<le> i \<and> i < n \<and> \<not> ?t i) = (j \<le> i \<and> i < n \<and> \<not> ?t i)"
        using True by (cases "i = j") auto
      then show "counts' ! i = (if j \<le> i \<and> i < n \<and> \<not> ?t i then counts ! i + 1 else counts ! i)"
        using e2 i by simp
    qed
    ultimately show ?thesis using step r l by simp
  next
    case False
    let ?counts1 = "counts[j := counts ! j + 1]"
    have step: "FindConverged_loop rnd c lst cur maxDiff n j (conv, counts) =
                FindConverged_loop rnd c lst cur maxDiff n (Suc j) (conv, ?counts1)"
      using j Suc.prems False by (subst FindConverged_loop.simps) (simp add: Get_def Update_def)
    have len: "n \<le> length ?counts1" using Suc.prems by simp
    obtain conv' counts' where
      r: "FindConverged_loop rnd c lst cur maxDiff n (Suc j) (conv, ?counts1) = Inr (conv', counts')"
      and l: "length conv' = n" "length counts' = length ?counts1"
      and e1: "\<forall>i<n. conv' ! i = (if Suc j \<le> i \<and> ?t i then 1 else conv ! i)"
      and e2: "\<forall>i<length ?counts1. counts' ! i =
              (if Suc j \<le> i \<and> i < n \<and> \<not> ?t i then ?counts1 ! i + 1 else ?counts1 ! i)"
      using Suc.hyps(1) [OF d Suc.prems(1,2,3) len] by blast
    have "\<forall>i<n. conv' ! i = (if j \<le> i \<and> ?t i then 1 else conv ! i)"
    proof (intro allI impI)
      fix i assume i: "i < n"
      have "(Suc j \<le> i \<and> ?t i) = (j \<le> i \<and> ?t i)"
        using False by (cases "i = j") auto
      then show "conv' ! i = (if j \<le> i \<and> ?t i then 1 else conv ! i)"
        using e1 i by simp
    qed
    moreover have "\<forall>i<length counts. counts' ! i =
              (if j \<le> i \<and> i < n \<and> \<not> ?t i then counts ! i + 1 else counts ! i)"
    proof (intro allI impI)
      fix i assume i: "i < length counts"
      show "counts' ! i = (if j \<le> i \<and> i < n \<and> \<not> ?t i then counts ! i + 1 else counts ! i)"
      proof (cases "i = j")
        case True
        then show ?thesis using e2 i j False by simp
      next
        case ne: False
        then have a: "?counts1 ! i = counts ! i" by simp
        have b: "(Suc j \<le> i) = (j \<le> i)" using ne by auto
        have "counts' ! i =
            (if Suc j \<le> i \<and> i < n \<and> \<not> ?t i then ?counts1 ! i + 1 else ?counts1 ! i)"
          using e2 i by simp
        then show ?thesis by (simp only: a b)
      qed
    qed
    ultimately show ?thesis using step r l by simp
  qed
qed

lemma word_succ_neq: "(x :: Int_t) + 1 \<noteq> x"
  by simp

text \<open>
  Claim C1.  For estimate vectors of equal height (and a count vector at least as high),
  FindConverged marks shift \<open>j\<close> converged (entry 1, otherwise 0) if and only if
  \<open>activeEsts[j] >= normCap\<close>, or \<open>|activeEsts[j]| > 0\<close> and
  \<open>|lastActiveEsts[j] - activeEsts[j]| / |activeEsts[j]| <= maxDiff\<close>.  The iteration count
  of shift \<open>j\<close> is incremented by exactly one if and only if the shift is not marked
  converged, and is unchanged if and only if it is.  A shift whose estimate is zero below
  the cap is never marked converged, whatever its last estimate.
\<close>

theorem FindConverged_marks_and_counts:
  assumes "length lastActiveEsts = length activeEsts"
    and "length activeEsts \<le> length activeItCounts"
  shows "\<exists>activeConverged activeItCounts'.
     FindConverged rnd eps lastActiveEsts activeEsts activeItCounts maxDiff
       = Inr (activeConverged, activeItCounts') \<and>
     length activeConverged = length activeEsts \<and>
     length activeItCounts' = length activeItCounts \<and>
     (\<forall>j<length activeEsts.
        (activeConverged ! j = 1 \<or> activeConverged ! j = 0) \<and>
        ((activeConverged ! j = 1) =
           (Real_ge (activeEsts ! j) (NormCap rnd eps) \<or>
            (Real_gt (Abs (activeEsts ! j)) (Fin 0) \<and>
             Real_le (Real_div rnd (Abs (Real_sub rnd (lastActiveEsts ! j) (activeEsts ! j)))
                        (Abs (activeEsts ! j))) maxDiff))) \<and>
        ((activeItCounts' ! j = activeItCounts ! j + 1) = (activeConverged ! j = 0)) \<and>
        ((activeItCounts' ! j = activeItCounts ! j) = (activeConverged ! j = 1)) \<and>
        (activeEsts ! j = Fin 0 \<and> \<not> Real_ge (Fin 0) (NormCap rnd eps) \<longrightarrow>
           activeConverged ! j = 0))"
proof -
  let ?n = "length activeEsts"
  let ?t = "\<lambda>i. converged_test rnd (NormCap rnd eps) (lastActiveEsts ! i) (activeEsts ! i) maxDiff"
  obtain conv counts' where
    r: "FindConverged rnd eps lastActiveEsts activeEsts activeItCounts maxDiff = Inr (conv, counts')"
    and l: "length conv = ?n" "length counts' = length activeItCounts"
    and e1: "\<forall>i<?n. conv ! i = (if 0 \<le> i \<and> ?t i then 1 else replicate ?n 0 ! i)"
    and e2: "\<forall>i<length activeItCounts. counts' ! i =
              (if 0 \<le> i \<and> i < ?n \<and> \<not> ?t i then activeItCounts ! i + 1 else activeItCounts ! i)"
    using FindConverged_loop_result [of lastActiveEsts ?n activeEsts "replicate ?n 0"
        activeItCounts rnd "NormCap rnd eps" maxDiff 0] assms
    unfolding FindConverged_def by auto
  have "\<forall>j<?n.
        (conv ! j = 1 \<or> conv ! j = 0) \<and>
        ((conv ! j = 1) =
           (Real_ge (activeEsts ! j) (NormCap rnd eps) \<or>
            (Real_gt (Abs (activeEsts ! j)) (Fin 0) \<and>
             Real_le (Real_div rnd (Abs (Real_sub rnd (lastActiveEsts ! j) (activeEsts ! j)))
                        (Abs (activeEsts ! j))) maxDiff))) \<and>
        ((counts' ! j = activeItCounts ! j + 1) = (conv ! j = 0)) \<and>
        ((counts' ! j = activeItCounts ! j) = (conv ! j = 1)) \<and>
        (activeEsts ! j = Fin 0 \<and> \<not> Real_ge (Fin 0) (NormCap rnd eps) \<longrightarrow> conv ! j = 0)"
  proof (intro allI impI)
    fix j assume j: "j < ?n"
    have c: "conv ! j = (if ?t j then 1 else 0)" using e1 j by simp
    have k: "counts' ! j = (if ?t j then activeItCounts ! j else activeItCounts ! j + 1)"
      using e2 j assms(2) by simp
    have t: "?t j =
           (Real_ge (activeEsts ! j) (NormCap rnd eps) \<or>
            (Real_gt (Abs (activeEsts ! j)) (Fin 0) \<and>
             Real_le (Real_div rnd (Abs (Real_sub rnd (lastActiveEsts ! j) (activeEsts ! j)))
                        (Abs (activeEsts ! j))) maxDiff))"
      by (simp add: converged_test_def)
    have z: "activeEsts ! j = Fin 0 \<and> \<not> Real_ge (Fin 0) (NormCap rnd eps) \<longrightarrow> \<not> ?t j"
      by (simp add: converged_test_def Real_gt_def)
    show "(conv ! j = 1 \<or> conv ! j = 0) \<and>
        ((conv ! j = 1) =
           (Real_ge (activeEsts ! j) (NormCap rnd eps) \<or>
            (Real_gt (Abs (activeEsts ! j)) (Fin 0) \<and>
             Real_le (Real_div rnd (Abs (Real_sub rnd (lastActiveEsts ! j) (activeEsts ! j)))
                        (Abs (activeEsts ! j))) maxDiff))) \<and>
        ((counts' ! j = activeItCounts ! j + 1) = (conv ! j = 0)) \<and>
        ((counts' ! j = activeItCounts ! j) = (conv ! j = 1)) \<and>
        (activeEsts ! j = Fin 0 \<and> \<not> Real_ge (Fin 0) (NormCap rnd eps) \<longrightarrow> conv ! j = 0)"
      using z unfolding t [symmetric] c k by simp
  qed
  then show ?thesis using r l by blast
qed

lemma list4: "length xs = 4 \<Longrightarrow> xs = [xs ! 0, xs ! 1, xs ! 2, xs ! 3]"
  by (auto simp: numeral_eq_Suc length_Suc_conv)

theorem FindConverged_marks_and_counts_witness:
  "FindConverged Fin (Fin (1 / 2 ^ 52)) [Fin 1, Fin 0, Fin 5, NaN] [Fin 1, Fin 0, Fin (2 ^ 53), Fin 2]
     [3, 4, 5, 6] (Fin (1 / 1000)) = Inr ([1, 0, 1, 0], [3, 5, 5, 7])"
proof -
  let ?last = "[Fin 1, Fin 0, Fin 5, NaN]"
  let ?cur = "[Fin 1, Fin 0, Fin (2 ^ 53), Fin 2]"
  let ?counts = "[3, 4, 5, 6 :: Int_t]"
  let ?eps = "Fin (1 / 2 ^ 52)"
  let ?tol = "Fin (1 / 1000)"
  have h1: "length ?last = length ?cur" by simp
  have h2: "length ?cur \<le> length ?counts" by simp
  obtain conv counts' where
    r: "FindConverged Fin ?eps ?last ?cur ?counts ?tol = Inr (conv, counts')"
    and l0: "length conv = length ?cur" "length counts' = length ?counts"
    and e: "\<forall>j<length ?cur.
        (conv ! j = 1 \<or> conv ! j = 0) \<and>
        ((conv ! j = 1) =
           (Real_ge (?cur ! j) (NormCap Fin ?eps) \<or>
            (Real_gt (Abs (?cur ! j)) (Fin 0) \<and>
             Real_le (Real_div Fin (Abs (Real_sub Fin (?last ! j) (?cur ! j)))
                        (Abs (?cur ! j))) ?tol))) \<and>
        ((counts' ! j = ?counts ! j + 1) = (conv ! j = 0)) \<and>
        ((counts' ! j = ?counts ! j) = (conv ! j = 1)) \<and>
        (?cur ! j = Fin 0 \<and> \<not> Real_ge (Fin 0) (NormCap Fin ?eps) \<longrightarrow> conv ! j = 0)"
    using FindConverged_marks_and_counts [OF h1 h2, of Fin ?eps ?tol] by blast
  have l: "length conv = 4" "length counts' = 4" using l0 by simp_all
  have "conv ! 0 = 1 \<and> counts' ! 0 = 3"
    using e [rule_format, of 0]
    by (auto simp add: NormCap_def Real_ge_def Real_gt_def Real_sub_def)
  moreover have "conv ! 1 = 0 \<and> counts' ! 1 = 5"
    using e [rule_format, of 1]
    by (auto simp add: NormCap_def Real_ge_def Real_gt_def Real_sub_def)
  moreover have "conv ! 2 = 1 \<and> counts' ! 2 = 5"
    using e [rule_format, of 2]
    by (auto simp add: NormCap_def Real_ge_def Real_gt_def Real_sub_def)
  moreover have "conv ! 3 = 0 \<and> counts' ! 3 = 7"
    using e [rule_format, of 3]
    by (auto simp add: NormCap_def Real_ge_def Real_gt_def Real_sub_def)
  ultimately have "conv = [1, 0, 1, 0] \<and> counts' = [3, 5, 5, 7]"
    using list4 [OF l(1)] list4 [OF l(2)] by simp
  then show ?thesis using r by simp
qed

lemma Real_le_cap: "c \<noteq> NaN \<Longrightarrow> x \<noteq> NaN \<Longrightarrow> \<not> Real_ge x c \<Longrightarrow> Real_le x c"
  unfolding Real_ge_def by (cases x; cases c) auto

text \<open>
  Claim C2.  When \<open>normCap\<close> is a number, CapEstimates replaces exactly the entries that are
  NaN or \<open>>= normCap\<close> by \<open>normCap\<close> and leaves every other entry unchanged.  Afterwards no
  entry is NaN, every entry is \<open><= normCap\<close>, and in any FindConverged check on the capped
  vector an entry equal to \<open>normCap\<close> is marked converged and its count is not incremented.
\<close>

theorem CapEstimates_caps:
  assumes "\<not> isnan (NormCap rnd eps)"
  shows "\<exists>capped.
     CapEstimates rnd eps activeEsts = Inr capped \<and> length capped = length activeEsts \<and>
     (\<forall>j<length activeEsts.
        capped ! j =
          (if isnan (activeEsts ! j) \<or> Real_ge (activeEsts ! j) (NormCap rnd eps)
           then NormCap rnd eps else activeEsts ! j) \<and>
        \<not> isnan (capped ! j) \<and> Real_le (capped ! j) (NormCap rnd eps)) \<and>
     (\<forall>lastActiveEsts activeItCounts maxDiff.
        length lastActiveEsts = length capped \<and> length capped \<le> length activeItCounts \<longrightarrow>
        (\<exists>activeConverged activeItCounts'.
           FindConverged rnd eps lastActiveEsts capped activeItCounts maxDiff
             = Inr (activeConverged, activeItCounts') \<and>
           (\<forall>j<length capped. capped ! j = NormCap rnd eps \<longrightarrow>
              activeConverged ! j = 1 \<and> activeItCounts' ! j = activeItCounts ! j)))"
proof -
  let ?c = "NormCap rnd eps"
  have c: "?c \<noteq> NaN" using assms by (simp add: isnan_def)
  obtain capped where r: "CapEstimates rnd eps activeEsts = Inr capped"
    and l: "length capped = length activeEsts"
    and e: "\<forall>i<length activeEsts. capped ! i =
              (if 0 \<le> i \<and> (isnan (activeEsts ! i) \<or> Real_ge (activeEsts ! i) ?c) then ?c
               else activeEsts ! i)"
    using CapEstimates_loop_result [of activeEsts "length activeEsts" ?c 0]
    unfolding CapEstimates_def by auto
  have p1: "\<forall>j<length activeEsts.
        capped ! j =
          (if isnan (activeEsts ! j) \<or> Real_ge (activeEsts ! j) ?c then ?c else activeEsts ! j) \<and>
        \<not> isnan (capped ! j) \<and> Real_le (capped ! j) ?c"
  proof (intro allI impI)
    fix j assume j: "j < length activeEsts"
    have v: "capped ! j =
          (if isnan (activeEsts ! j) \<or> Real_ge (activeEsts ! j) ?c then ?c else activeEsts ! j)"
      using e j by simp
    have "\<not> isnan (capped ! j)" using v assms by (simp add: isnan_def)
    moreover have "Real_le (capped ! j) ?c"
      using v c Real_le_refl [OF c] Real_le_cap [OF c, of "activeEsts ! j"]
      by (auto simp: isnan_def)
    ultimately show "capped ! j =
          (if isnan (activeEsts ! j) \<or> Real_ge (activeEsts ! j) ?c then ?c else activeEsts ! j) \<and>
        \<not> isnan (capped ! j) \<and> Real_le (capped ! j) ?c"
      using v by simp
  qed
  have p2: "\<forall>lastActiveEsts activeItCounts maxDiff.
        length lastActiveEsts = length capped \<and> length capped \<le> length activeItCounts \<longrightarrow>
        (\<exists>activeConverged activeItCounts'.
           FindConverged rnd eps lastActiveEsts capped activeItCounts maxDiff
             = Inr (activeConverged, activeItCounts') \<and>
           (\<forall>j<length capped. capped ! j = ?c \<longrightarrow>
              activeConverged ! j = 1 \<and> activeItCounts' ! j = activeItCounts ! j))"
  proof (intro allI impI)
    fix lst :: "Real list" and counts :: "Int_t list" and maxDiff :: Real
    assume a: "length lst = length capped \<and> length capped \<le> length counts"
    let ?t = "\<lambda>i. converged_test rnd ?c (lst ! i) (capped ! i) maxDiff"
    obtain conv counts' where
      fr: "FindConverged rnd eps lst capped counts maxDiff = Inr (conv, counts')"
      and e1: "\<forall>i<length capped. conv ! i =
                (if 0 \<le> i \<and> ?t i then 1 else replicate (length capped) 0 ! i)"
      and e2: "\<forall>i<length counts. counts' ! i =
                (if 0 \<le> i \<and> i < length capped \<and> \<not> ?t i then counts ! i + 1 else counts ! i)"
      using FindConverged_loop_result [of lst "length capped" capped "replicate (length capped) 0"
          counts rnd ?c maxDiff 0] a
      unfolding FindConverged_def by auto
    have "\<forall>j<length capped. capped ! j = ?c \<longrightarrow> conv ! j = 1 \<and> counts' ! j = counts ! j"
    proof (intro allI impI)
      fix j assume j: "j < length capped" and eq: "capped ! j = ?c"
      have "?t j" using eq Real_le_refl [OF c] by (simp add: converged_test_def Real_ge_def)
      then show "conv ! j = 1 \<and> counts' ! j = counts ! j" using e1 e2 j a by simp
    qed
    then show "\<exists>activeConverged activeItCounts'.
           FindConverged rnd eps lst capped counts maxDiff = Inr (activeConverged, activeItCounts') \<and>
           (\<forall>j<length capped. capped ! j = ?c \<longrightarrow>
              activeConverged ! j = 1 \<and> activeItCounts' ! j = counts ! j)"
      using fr by blast
  qed
  show ?thesis using r l p1 p2 by blast
qed

lemma list5: "length xs = 5 \<Longrightarrow> xs = [xs ! 0, xs ! 1, xs ! 2, xs ! 3, xs ! 4]"
  by (auto simp: numeral_eq_Suc length_Suc_conv)

theorem CapEstimates_caps_witness:
  "\<not> isnan (NormCap Fin (Fin (1 / 2 ^ 52))) \<and>
   CapEstimates Fin (Fin (1 / 2 ^ 52)) [NaN, Fin 7, PosInf, Fin (2 ^ 52), NegInf]
     = Inr [Fin (2 ^ 52), Fin 7, Fin (2 ^ 52), Fin (2 ^ 52), NegInf]"
proof -
  let ?eps = "Fin (1 / 2 ^ 52)"
  let ?est = "[NaN, Fin 7, PosInf, Fin (2 ^ 52), NegInf]"
  have c: "NormCap Fin ?eps = Fin (2 ^ 52)" by (simp add: NormCap_def)
  have h: "\<not> isnan (NormCap Fin ?eps)" using c by (simp add: isnan_def)
  obtain capped where r: "CapEstimates Fin ?eps ?est = Inr capped"
    and l0: "length capped = length ?est"
    and e: "\<forall>j<length ?est.
        capped ! j =
          (if isnan (?est ! j) \<or> Real_ge (?est ! j) (NormCap Fin ?eps)
           then NormCap Fin ?eps else ?est ! j) \<and>
        \<not> isnan (capped ! j) \<and> Real_le (capped ! j) (NormCap Fin ?eps)"
    using CapEstimates_caps [OF h, of ?est] by blast
  have l: "length capped = 5" using l0 by simp
  have "capped ! 0 = Fin (2 ^ 52)" using e [rule_format, of 0] c by (simp add: isnan_def)
  moreover have "capped ! 1 = Fin 7"
    using e [rule_format, of 1] c by (simp add: isnan_def Real_ge_def)
  moreover have "capped ! 2 = Fin (2 ^ 52)"
    using e [rule_format, of 2] c by (simp add: isnan_def Real_ge_def)
  moreover have "capped ! 3 = Fin (2 ^ 52)"
    using e [rule_format, of 3] c by (simp add: isnan_def Real_ge_def)
  moreover have "capped ! 4 = NegInf"
    using e [rule_format, of 4] c by (simp add: isnan_def Real_ge_def)
  ultimately have "capped = [Fin (2 ^ 52), Fin 7, Fin (2 ^ 52), Fin (2 ^ 52), NegInf]"
    using list5 [OF l] by simp
  then show ?thesis using r h by simp
qed

section \<open>Properties of ReshapeIntoGrid\<close>

lemma sint_mult_in_range:
  fixes a b :: Int_t
  assumes "0 \<le> sint a" and "0 \<le> sint b" and "sint a * sint b < 2 ^ 31"
  shows "sint (a * b) = sint a * sint b"
proof -
  have "0 \<le> sint a * sint b" using assms(1,2) by simp
  then have "signed_take_bit 31 (sint a * sint b) = sint a * sint b"
    using assms(3) by (simp add: signed_take_bit_int_eq_self)
  then show ?thesis by (simp add: sint_word_ariths)
qed

lemma offset_in_grid:
  fixes i j R I :: nat
  assumes "i < R" and "j < I"
  shows "i + j * R < R * I"
proof -
  have "Suc j \<le> I" using assms(2) by simp
  then have "Suc j * R \<le> I * R" by (rule mult_le_mono1)
  then show ?thesis using assms(1) by (simp add: mult.commute)
qed

lemma ReshapeIntoGrid_columns:
  assumes "0 \<le> sint realSize" and "0 \<le> sint imagSize"
    and "sint realSize * sint imagSize = int (length x)" and "length x < 2 ^ 31"
  shows "\<exists>G. ReshapeIntoGrid realSize imagSize x X = Inr G \<and>
           height G = nat (sint realSize) \<and> width G = nat (sint imagSize) \<and>
           columns G = grid_of (nat (sint realSize)) (nat (sint imagSize)) x"
proof -
  let ?R = "nat (sint realSize)" and ?I = "nat (sint imagSize)"
  have prod: "sint (realSize * imagSize) = int (length x)"
    using sint_mult_in_range [OF assms(1,2)] assms(3,4) by simp
  have RI: "?R * ?I = length x"
    using assms(1,2,3) by (metis nat_int nat_mult_distrib)
  let ?X1 = "X\<lparr>height := ?R, width := ?I, ldim := ?R\<rparr>"
  let ?G = "?X1\<lparr>mem := (\<lambda>k. if k < length x then x ! k else mem ?X1 k)\<rparr>"
  have "ReshapeIntoGrid realSize imagSize x X = Inr ?G"
    using assms(1,2) prod RI by (simp add: ReshapeIntoGrid_def Resize_def MemCopy_def)
  moreover have "columns ?G = grid_of ?R ?I x"
    using offset_in_grid [of _ ?R _ ?I] RI
    by (simp add: columns_def grid_of_def entry_def)
  ultimately show ?thesis by simp
qed

text \<open>
  On a square grid the two overloads agree, and the grid is the reference layout.
\<close>

lemma sint_of_nat_small:
  assumes "j < 2 ^ 31"
  shows "sint (of_nat j :: Int_t) = int j"
  using assms
  by (simp add: sint_uint signed_take_bit_int_eq_self take_bit_nat_eq_self unsigned_of_nat)

lemma ReshapeIntoGrid_Dist_loop_square:
  assumes "height X = N" and "width X = N" and "ldim X = N"
    and "0 \<le> sint n" and "N = nat (sint n)" and "N * N = length x" and "length x < 2 ^ 31"
    and "j \<le> N"
  shows "ReshapeIntoGrid_Dist_loop n n x j X =
           Inr (X\<lparr>mem := (\<lambda>k. if j * N \<le> k \<and> k < N * N then x ! k else mem X k)\<rparr>)"
  using assms
proof (induction "N - j" arbitrary: j X)
  case 0
  from 0(1,9) have "j = N" by arith
  then have "(\<lambda>k. if j * N \<le> k \<and> k < N * N then x ! k else mem X k) = mem X"
    by (auto simp: fun_eq_iff)
  then show ?case using 0 by (subst ReshapeIntoGrid_Dist_loop.simps) simp
next
  case (Suc d)
  from Suc.hyps(2) have j: "j < N" by arith
  have jN: "j * N + N \<le> N * N"
  proof -
    have "Suc j * N \<le> N * N" using j by (intro mult_le_mono1) simp
    then show ?thesis by (simp add: add.commute)
  qed
  have N31: "N < 2 ^ 31"
  proof -
    have "N \<le> N * N" using j by (cases N) simp_all
    then show ?thesis using Suc.prems(6,7) by simp
  qed
  have sj: "sint (of_nat j :: Int_t) = int j" using j N31 by (intro sint_of_nat_small) simp
  have "int j * sint n = int (j * N)" using Suc.prems(4,5) by simp
  moreover have "j * N < 2 ^ 31" using jN Suc.prems(6,7) by simp
  ultimately have off: "sint (of_nat j * n :: Int_t) = int (j * N)"
    using sint_mult_in_range [of "of_nat j" n] sj Suc.prems(4)
    by (metis of_nat_0_le_iff of_nat_less_numeral_power_cancel_iff)
  let ?X1 = "X\<lparr>mem := (\<lambda>k. if j * N \<le> k \<and> k < j * N + N then x ! (j * N + (k - j * N))
                           else mem X k)\<rparr>"
  have sn: "sint n = int N" using Suc.prems(4,5) by simp
  have c1: "int j < sint n" using j sn by simp
  have c2: "View_ok X 0 (int j) (sint n) 1"
    using j sn Suc.prems(1,2) by (simp add: View_ok_def)
  have "int (j * N) + int N \<le> int (length x)"
    using jN Suc.prems(6) by (metis of_nat_add of_nat_le_iff)
  then have c3: "LockedView_ok x (sint (of_nat j * n)) (sint n)"
    unfolding LockedView_ok_def off sn by simp
  have memeq: "(\<lambda>k. if j * ldim X \<le> k \<and> k < j * ldim X + nat (sint n)
                      then x ! (nat (sint (of_nat j * n)) + (k - j * ldim X)) else mem X k) =
               (\<lambda>k. if j * N \<le> k \<and> k < j * N + N then x ! (j * N + (k - j * N))
                           else mem X k)"
    unfolding off sn Suc.prems(3) by (simp only: nat_int)
  have step: "ReshapeIntoGrid_Dist_loop n n x j X = ReshapeIntoGrid_Dist_loop n n x (Suc j) ?X1"
    by (subst ReshapeIntoGrid_Dist_loop.simps) (simp only: c1 c2 c3 memeq simp_thms if_True)
  have d: "d = N - Suc j" using Suc.hyps(2) by simp
  have "ReshapeIntoGrid_Dist_loop n n x (Suc j) ?X1 =
          Inr (?X1\<lparr>mem := (\<lambda>k. if Suc j * N \<le> k \<and> k < N * N then x ! k else mem ?X1 k)\<rparr>)"
    using Suc.hyps(1) [OF d, of ?X1] Suc.prems j by simp
  moreover have "(\<lambda>k. if Suc j * N \<le> k \<and> k < N * N then x ! k else mem ?X1 k) =
                 (\<lambda>k. if j * N \<le> k \<and> k < N * N then x ! k else mem X k)"
    using jN by (auto simp: fun_eq_iff)
  ultimately show ?case using step by simp
qed

lemma ReshapeIntoGrid_square:
  assumes "0 \<le> sint n" and "sint n * sint n = int (length x)" and "length x < 2 ^ 31"
  shows "ReshapeIntoGrid_Dist n n x X = ReshapeIntoGrid n n x X"
    and "\<exists>G. ReshapeIntoGrid n n x X = Inr G \<and>
           columns G = reference_columns (nat (sint n)) (nat (sint n)) x"
proof -
  let ?N = "nat (sint n)"
  have NN: "?N * ?N = length x" using assms(1,2) by (metis nat_int nat_mult_distrib)
  have prod: "sint (n * n) = int (length x)"
    using sint_mult_in_range [OF assms(1,1)] assms(2,3) by simp
  let ?X1 = "X\<lparr>height := ?N, width := ?N, ldim := ?N\<rparr>"
  have "ReshapeIntoGrid_Dist_loop n n x 0 ?X1 =
          Inr (?X1\<lparr>mem := (\<lambda>k. if 0 * ?N \<le> k \<and> k < ?N * ?N then x ! k else mem ?X1 k)\<rparr>)"
    using ReshapeIntoGrid_Dist_loop_square [of ?X1 ?N n x 0] assms(1,3) NN by simp
  then show "ReshapeIntoGrid_Dist n n x X = ReshapeIntoGrid n n x X"
    using assms(1) prod NN
    by (simp add: ReshapeIntoGrid_Dist_def ReshapeIntoGrid_def Resize_def MemCopy_def)
  obtain G where "ReshapeIntoGrid n n x X = Inr G" "columns G = grid_of ?N ?N x"
    using ReshapeIntoGrid_columns [OF assms(1,1,2,3)] by blast
  moreover have "grid_of ?N ?N x = reference_columns ?N ?N x"
    by (simp add: grid_of_def reference_columns_def add.commute)
  ultimately show "\<exists>G. ReshapeIntoGrid n n x X = Inr G \<and> columns G = reference_columns ?N ?N x"
    by simp
qed

text \<open>
  Claim C6.  The sequential ReshapeIntoGrid (one flat copy into a \<open>realSize\<close> by
  \<open>imagSize\<close> matrix with leading dimension \<open>realSize\<close>) is claimed to produce the grid
  of the per-column layout of the distributed overload, whose column \<open>j < realSize\<close>
  holds the vector entries \<open>j*imagSize, ..., j*imagSize + imagSize - 1\<close>.  On the grid
  with \<open>realSize = 2\<close> and \<open>imagSize = 3\<close> it does not: the flat copy gives three
  columns of two entries, the reference layout is two columns of three entries, and the
  loop of the distributed overload asks for a view of three rows of a matrix with two.
\<close>

theorem ReshapeIntoGrid_nonsquare:
  "map_sum id columns (ReshapeIntoGrid 2 3 [10, 11, 12, 13, 14, 15 :: int] (empty_Matrix 0))
     = Inr [[10, 11], [12, 13], [14, 15]] \<and>
   ReshapeIntoGrid_Dist 2 3 [10, 11, 12, 13, 14, 15 :: int] (empty_Matrix 0) = Inl OutOfBounds \<and>
   reference_columns 2 3 [10, 11, 12, 13, 14, 15 :: int] = [[10, 11, 12], [13, 14, 15]]"
  by (simp add: ReshapeIntoGrid_def ReshapeIntoGrid_Dist_def ReshapeIntoGrid_Dist_loop.simps
      Resize_def MemCopy_def empty_Matrix_def columns_def entry_def reference_columns_def
      View_ok_def upt_rec numeral_eq_Suc)

section \<open>Properties of Snapshot\<close>

lemma columns_EntrywiseMap: "columns (EntrywiseMap A f) = map (map f) (columns A)"
  by (simp add: columns_def EntrywiseMap_def entry_def)

lemma Snapshot_grid_result:
  assumes "0 \<le> sint realSize" and "0 \<le> sint imagSize"
    and "sint realSize * sint imagSize = int (length estimates)" and "length estimates < 2 ^ 31"
    and "deflate \<longrightarrow> length preimage \<le> length estimates \<and>
           (\<forall>k<length preimage. 0 \<le> sint (preimage ! k) \<and>
                                 sint (preimage ! k) < int (length estimates))"
  shows "\<exists>invNorms G.
           (if deflate then RestoreOrdering preimage estimates else Inr estimates) = Inr invNorms \<and>
           length invNorms = length estimates \<and>
           Snapshot_grid estimates preimage deflate realSize imagSize = Inr G \<and>
           columns G = grid_of (nat (sint realSize)) (nat (sint imagSize)) invNorms"
proof -
  obtain invNorms where
    i: "(if deflate then RestoreOrdering preimage estimates else Inr estimates) = Inr invNorms"
    and l: "length invNorms = length estimates"
  proof (cases deflate)
    case True
    then obtain v where "RestoreOrdering preimage estimates = Inr v" "length v = length estimates"
      using RestoreOrdering_loop_result [of preimage estimates estimates 0] assms(5)
      unfolding RestoreOrdering_def by auto
    then show ?thesis using that True by simp
  next
    case False
    then show ?thesis using that by simp
  qed
  obtain G where "ReshapeIntoGrid realSize imagSize invNorms (empty_Matrix NaN) = Inr G"
    "columns G = grid_of (nat (sint realSize)) (nat (sint imagSize)) invNorms"
    using ReshapeIntoGrid_columns [of realSize imagSize invNorms "empty_Matrix NaN"] assms(1-4) l
    by auto
  then show ?thesis using i l by (auto simp: Snapshot_grid_def)
qed

text \<open>
  Claim C5.  A call of Snapshot on a nonempty grid, with \<open>realSize * imagSize\<close> estimates
  (and, when deflating, a preimage whose entries are positions of the estimates), returns
  normally.  The numeric channel is written if and only if \<open>numFreq > 0\<close> and
  \<open>numSaveCount >= numFreq\<close>, with the grid of the raw estimates, and \<open>numSaveCount\<close> is
  reset to zero exactly then.  The image channel is written (twice, the second time with
  the discrete grey colour map) if and only if \<open>imgFreq > 0\<close> and
  \<open>imgSaveCount >= imgFreq\<close>, with the entrywise Log of the grid, and \<open>imgSaveCount\<close> is
  reset to zero exactly then.  A frequency that is not positive never triggers its
  channel.  The colour map is the same after the call.
\<close>

theorem Snapshot_channels:
  assumes "realSize \<noteq> 0" and "imagSize \<noteq> 0"
    and "0 \<le> sint realSize" and "0 \<le> sint imagSize"
    and "sint realSize * sint imagSize = int (length estimates)" and "length estimates < 2 ^ 31"
    and "deflate \<longrightarrow> length preimage \<le> length estimates \<and>
           (\<forall>k<length preimage. 0 \<le> sint (preimage ! k) \<and>
                                 sint (preimage ! k) < int (length estimates))"
    and "numSave = (0 < sint numFreq \<and> sint numFreq \<le> sint (numSaveCount s))"
    and "imgSave = (0 < sint imgFreq \<and> sint imgFreq \<le> sint (imgSaveCount s))"
  shows "\<exists>s' invNorms.
     Snapshot Log estimates preimage numIts deflate realSize imagSize
       numFreq numBase numFormat imgFreq imgBase imgFormat s = Inr s' \<and>
     (if deflate then RestoreOrdering preimage estimates else Inr estimates) = Inr invNorms \<and>
     written s' = written s @
       (if numSave
        then [\<lparr>wr_columns = grid_of (nat (sint realSize)) (nat (sint imagSize)) invNorms,
               wr_name = numBase @ ''-'' @ show_Int numIts, wr_format = numFormat,
               wr_colorMap = colorMap s\<rparr>]
        else []) @
       (if imgSave
        then [\<lparr>wr_columns =
                 map (map Log) (grid_of (nat (sint realSize)) (nat (sint imagSize)) invNorms),
               wr_name = imgBase @ ''-'' @ show_Int numIts, wr_format = imgFormat,
               wr_colorMap = colorMap s\<rparr>,
              \<lparr>wr_columns =
                 map (map Log) (grid_of (nat (sint realSize)) (nat (sint imagSize)) invNorms),
               wr_name = imgBase @ ''-'' @ show_Int numIts @ ''-discrete'',
               wr_format = imgFormat, wr_colorMap = GRAYSCALE_DISCRETE\<rparr>]
        else []) \<and>
     numSaveCount s' = (if numSave then 0 else numSaveCount s) \<and>
     imgSaveCount s' = (if imgSave then 0 else imgSaveCount s) \<and>
     colorMap s' = colorMap s \<and>
     (sint numFreq \<le> 0 \<longrightarrow> \<not> numSave) \<and> (sint imgFreq \<le> 0 \<longrightarrow> \<not> imgSave)"
proof -
  obtain invNorms G where
    i: "(if deflate then RestoreOrdering preimage estimates else Inr estimates) = Inr invNorms"
    and g: "Snapshot_grid estimates preimage deflate realSize imagSize = Inr G"
    and c: "columns G = grid_of (nat (sint realSize)) (nat (sint imagSize)) invNorms"
    using Snapshot_grid_result [OF assms(3-7)] by blast
  have f: "(sint numFreq \<le> 0 \<longrightarrow> \<not> numSave) \<and> (sint imgFreq \<le> 0 \<longrightarrow> \<not> imgSave)"
    using assms(8,9) by auto
  show ?thesis
  proof (cases numSave)
    case ns: True
    then have n: "0 < sint numFreq \<and> sint numFreq \<le> sint (numSaveCount s)"
      using assms(8) by simp
    show ?thesis
    proof (cases imgSave)
      case True
      then have m: "0 < sint imgFreq \<and> sint imgFreq \<le> sint (imgSaveCount s)"
        using assms(9) by simp
      show ?thesis using ns True n m f assms(1,2) i g c
        by (simp add: Snapshot_def Snapshot_numSave_def Snapshot_imgSave_def Write_def Let_def
            snapshot_name_def columns_EntrywiseMap)
    next
      case False
      then have m: "\<not> (0 < sint imgFreq \<and> sint imgFreq \<le> sint (imgSaveCount s))"
        using assms(9) by simp
      show ?thesis using ns False n m f assms(1,2) i g c
        by (auto simp add: Snapshot_def Snapshot_numSave_def Write_def Let_def snapshot_name_def)
    qed
  next
    case ns: False
    then have n: "\<not> (0 < sint numFreq \<and> sint numFreq \<le> sint (numSaveCount s))"
      using assms(8) by simp
    show ?thesis
    proof (cases imgSave)
      case True
      then have m: "0 < sint imgFreq \<and> sint imgFreq \<le> sint (imgSaveCount s)"
        using assms(9) by simp
      show ?thesis using ns True n m f assms(1,2) i g c
        by (auto simp add: Snapshot_def Snapshot_imgSave_def Write_def Let_def
            snapshot_name_def columns_EntrywiseMap)
    next
      case False
      then have m: "\<not> (0 < sint imgFreq \<and> sint imgFreq \<le> sint (imgSaveCount s))"
        using assms(9) by simp
      show ?thesis using ns False n m f assms(1,2) i
        by (auto simp add: Snapshot_def Let_def)
    qed
  qed
qed

theorem Snapshot_channels_witness:
  "Snapshot Real_neg [Fin 1, Fin 2, Fin 3, Fin 4, Fin 5, Fin 6] [1, 0, 2, 3, 4, 5] 12 True 2 3
     5 ''snap'' (2 :: nat) 10 ''logSnap'' 8
     \<lparr>numSaveCount = 7, imgSaveCount = 9, colorMap = GRAYSCALE, written = []\<rparr>
   = Inr \<lparr>numSaveCount = 0, imgSaveCount = 9, colorMap = GRAYSCALE,
          written = [\<lparr>wr_columns = [[Fin 2, Fin 1], [Fin 3, Fin 4], [Fin 5, Fin 6]],
                      wr_name = ''snap-12'', wr_format = 2, wr_colorMap = GRAYSCALE\<rparr>]\<rparr>"
proof -
  let ?est = "[Fin 1, Fin 2, Fin 3, Fin 4, Fin 5, Fin 6]"
  let ?pre = "[1, 0, 2, 3, 4, 5 :: Int_t]"
  let ?s = "\<lparr>numSaveCount = 7, imgSaveCount = 9, colorMap = GRAYSCALE,
             written = [] :: nat write_call list\<rparr>"
  have h1: "(2 :: Int_t) \<noteq> 0" "(3 :: Int_t) \<noteq> 0" by simp_all
  have h2: "0 \<le> sint (2 :: Int_t)" "0 \<le> sint (3 :: Int_t)" by simp_all
  have h3: "sint (2 :: Int_t) * sint (3 :: Int_t) = int (length ?est)" by simp
  have h4: "length ?est < 2 ^ 31" by simp
  have h5: "True \<longrightarrow> length ?pre \<le> length ?est \<and>
           (\<forall>k<length ?pre. 0 \<le> sint (?pre ! k) \<and> sint (?pre ! k) < int (length ?est))"
    by (simp add: less_Suc_eq numeral_eq_Suc all_conj_distrib)
  have h6: "True = (0 < sint (5 :: Int_t) \<and> sint (5 :: Int_t) \<le> sint (numSaveCount ?s))" by simp
  have h7: "False = (0 < sint (10 :: Int_t) \<and> sint (10 :: Int_t) \<le> sint (imgSaveCount ?s))" by simp
  have r: "RestoreOrdering ?pre ?est = Inr [Fin 2, Fin 1, Fin 3, Fin 4, Fin 5, Fin 6]"
    by (simp add: RestoreOrdering_def RestoreOrdering_loop.simps Get_def Set_def)
  have n: "show_Int 12 = ''12''" by (simp add: show_Int_def show_nat.simps)
  have g: "grid_of (nat (sint (2 :: Int_t))) (nat (sint (3 :: Int_t)))
             [Fin 2, Fin 1, Fin 3, Fin 4, Fin 5, Fin 6]
           = [[Fin 2, Fin 1], [Fin 3, Fin 4], [Fin 5, Fin 6 :: Real]]"
    by (simp add: grid_of_def upt_rec numeral_eq_Suc)
  obtain s' :: "nat snapshot_state" and invNorms where
    a: "Snapshot Real_neg ?est ?pre 12 True 2 3 5 ''snap'' (2 :: nat) 10 ''logSnap'' 8 ?s = Inr s'"
    and b: "(if True then RestoreOrdering ?pre ?est else Inr ?est) = Inr invNorms"
    and c: "written s' = written ?s @
       (if True
        then [\<lparr>wr_columns = grid_of (nat (sint (2 :: Int_t))) (nat (sint (3 :: Int_t))) invNorms,
               wr_name = ''snap'' @ ''-'' @ show_Int 12, wr_format = 2,
               wr_colorMap = colorMap ?s\<rparr>]
        else []) @
       (if False
        then [\<lparr>wr_columns =
                 map (map Real_neg) (grid_of (nat (sint (2 :: Int_t))) (nat (sint (3 :: Int_t))) invNorms),
               wr_name = ''logSnap'' @ ''-'' @ show_Int 12, wr_format = 8,
               wr_colorMap = colorMap ?s\<rparr>,
              \<lparr>wr_columns =
                 map (map Real_neg) (grid_of (nat (sint (2 :: Int_t))) (nat (sint (3 :: Int_t))) invNorms),
               wr_name = ''logSnap'' @ ''-'' @ show_Int 12 @ ''-discrete'',
               wr_format = 8, wr_colorMap = GRAYSCALE_DISCRETE\<rparr>]
        else [])"
    and d: "numSaveCount s' = (if True then 0 else numSaveCount ?s)"
      "imgSaveCount s' = (if False then 0 else imgSaveCount ?s)"
      "colorMap s' = colorMap ?s"
    using Snapshot_channels [OF h1 h2 h3 h4 h5 h6 h7, of Real_neg 12 "''snap''" 2 "''logSnap''" 8]
    by blast
  have "invNorms = [Fin 2, Fin 1, Fin 3, Fin 4, Fin 5, Fin 6]" using b r by simp
  then have "written s' = [\<lparr>wr_columns = [[Fin 2, Fin 1], [Fin 3, Fin 4], [Fin 5, Fin 6]],
                      wr_name = ''snap-12'', wr_format = 2, wr_colorMap = GRAYSCALE\<rparr>]"
    using c g n by simp
  then have "s' = \<lparr>numSaveCount = 0, imgSaveCount = 9, colorMap = GRAYSCALE,
          written = [\<lparr>wr_columns = [[Fin 2, Fin 1], [Fin 3, Fin 4], [Fin 5, Fin 6]],
                      wr_name = ''snap-12'', wr_format = 2, wr_colorMap = GRAYSCALE\<rparr>]\<rparr>"
    using d by (cases s') simp
  then show ?thesis using a by simp
qed

text \<open>
  Claim C10.  When \<open>realSize = 0\<close> or \<open>imagSize = 0\<close>, Snapshot writes nothing and leaves
  both counters as they are, whatever its other arguments.
\<close>

theorem Snapshot_empty_grid:
  assumes "realSize = 0 \<or> imagSize = 0"
  shows "Snapshot Log estimates preimage numIts deflate realSize imagSize
           numFreq numBase numFormat imgFreq imgBase imgFormat s = Inr s"
  using assms by (auto simp: Snapshot_def)

theorem Snapshot_empty_grid_witness:
  "Snapshot Real_neg [Fin 1, Fin 2] [1, 0] 12 True 0 5 5 ''snap'' (2 :: nat) 5 ''logSnap'' 8
     \<lparr>numSaveCount = 7, imgSaveCount = 9, colorMap = GRAYSCALE, written = []\<rparr>
   = Inr \<lparr>numSaveCount = 7, imgSaveCount = 9, colorMap = GRAYSCALE, written = []\<rparr>"
  using Snapshot_empty_grid [of 0 5 Real_neg "[Fin 1, Fin 2]" "[1, 0]" 12 True 5 "''snap''" "2 :: nat"
      5 "''logSnap''" 8 "\<lparr>numSaveCount = 7, imgSaveCount = 9, colorMap = GRAYSCALE, written = []\<rparr>"]
  by simp

section \<open>Properties of FixColumns\<close>

lemma FixColumns_loop_result:
  assumes "length norms = n" and "length X = n" and "length divisors = j" and "j \<le> n"
  shows "\<exists>X' pos' divisors'.
     FixColumns_loop rnd gauss norms n j (X, pos, divisors) = Inr (X', pos', divisors') \<and>
     length X' = n \<and> length divisors' = n \<and>
     (\<forall>i<j. X' ! i = X ! i \<and> divisors' ! i = divisors ! i) \<and>
     (\<forall>i. j \<le> i \<and> i < n \<longrightarrow>
        (if Real_eq (norms ! i) (Fin 0)
         then \<exists>p. divisors' ! i =
                    FrobeniusNorm rnd (map (\<lambda>k. gauss (p + k)) [0..<length (X ! i)]) \<and>
                  X' ! i = Scale rnd (Real_div rnd (Fin 1) (divisors' ! i))
                             (map (\<lambda>k. gauss (p + k)) [0..<length (X ! i)])
         else divisors' ! i = norms ! i \<and>
              X' ! i = Scale rnd (Real_div rnd (Fin 1) (norms ! i)) (X ! i)))"
  using assms
proof (induction "n - j" arbitrary: j X pos divisors)
  case 0
  then show ?case by (subst FixColumns_loop.simps) auto
next
  case (Suc d)
  from Suc.hyps(2) have j: "j < n" by arith
  have d: "d = n - Suc j" using Suc.hyps(2) by simp
  let ?x = "X ! j" and ?nrm = "norms ! j"
  let ?g = "map (\<lambda>k. gauss (pos + k)) [0..<length ?x]"
  let ?z = "Real_eq ?nrm (Fin 0)"
  let ?x1 = "if ?z then ?g else ?x"
  let ?pos1 = "if ?z then pos + length ?x else pos"
  let ?nrm1 = "if ?z then FrobeniusNorm rnd ?g else ?nrm"
  let ?X1 = "X[j := Scale rnd (Real_div rnd (Fin 1) ?nrm1) ?x1]"
  let ?div1 = "divisors @ [?nrm1]"
  have step: "FixColumns_loop rnd gauss norms n j (X, pos, divisors) =
              FixColumns_loop rnd gauss norms n (Suc j) (?X1, ?pos1, ?div1)"
    using j Suc.prems(1,2)
    by (subst FixColumns_loop.simps) (simp add: Get_def Set_def MakeGaussian_def)
  have l1: "length ?X1 = n" using Suc.prems(2) by simp
  have l2: "length ?div1 = Suc j" using Suc.prems(3) by simp
  have l3: "Suc j \<le> n" using j by simp
  obtain X' pos' divisors' where
    r: "FixColumns_loop rnd gauss norms n (Suc j) (?X1, ?pos1, ?div1) = Inr (X', pos', divisors')"
    and len: "length X' = n" "length divisors' = n"
    and old: "\<forall>i<Suc j. X' ! i = ?X1 ! i \<and> divisors' ! i = ?div1 ! i"
    and new: "\<forall>i. Suc j \<le> i \<and> i < n \<longrightarrow>
        (if Real_eq (norms ! i) (Fin 0)
         then \<exists>p. divisors' ! i =
                    FrobeniusNorm rnd (map (\<lambda>k. gauss (p + k)) [0..<length (?X1 ! i)]) \<and>
                  X' ! i = Scale rnd (Real_div rnd (Fin 1) (divisors' ! i))
                             (map (\<lambda>k. gauss (p + k)) [0..<length (?X1 ! i)])
         else divisors' ! i = norms ! i \<and>
              X' ! i = Scale rnd (Real_div rnd (Fin 1) (norms ! i)) (?X1 ! i))"
    using Suc.hyps(1) [OF d Suc.prems(1) l1 l2 l3, of ?pos1] by blast
  have a: "\<forall>i<j. X' ! i = X ! i \<and> divisors' ! i = divisors ! i"
    using old Suc.prems(3) by (simp add: nth_append)
  have atj: "X' ! j = Scale rnd (Real_div rnd (Fin 1) ?nrm1) ?x1 \<and> divisors' ! j = ?nrm1"
    using old j Suc.prems(2,3) by (simp add: nth_append)
  have b: "\<forall>i. j \<le> i \<and> i < n \<longrightarrow>
        (if Real_eq (norms ! i) (Fin 0)
         then \<exists>p. divisors' ! i =
                    FrobeniusNorm rnd (map (\<lambda>k. gauss (p + k)) [0..<length (X ! i)]) \<and>
                  X' ! i = Scale rnd (Real_div rnd (Fin 1) (divisors' ! i))
                             (map (\<lambda>k. gauss (p + k)) [0..<length (X ! i)])
         else divisors' ! i = norms ! i \<and>
              X' ! i = Scale rnd (Real_div rnd (Fin 1) (norms ! i)) (X ! i))"
  proof (intro allI impI)
    fix i assume i: "j \<le> i \<and> i < n"
    show "if Real_eq (norms ! i) (Fin 0)
         then \<exists>p. divisors' ! i =
                    FrobeniusNorm rnd (map (\<lambda>k. gauss (p + k)) [0..<length (X ! i)]) \<and>
                  X' ! i = Scale rnd (Real_div rnd (Fin 1) (divisors' ! i))
                             (map (\<lambda>k. gauss (p + k)) [0..<length (X ! i)])
         else divisors' ! i = norms ! i \<and>
              X' ! i = Scale rnd (Real_div rnd (Fin 1) (norms ! i)) (X ! i)"
    proof (cases "i = j")
      case True
      show ?thesis
      proof (cases ?z)
        case z: True
        then have "divisors' ! j = FrobeniusNorm rnd ?g \<and>
                   X' ! j = Scale rnd (Real_div rnd (Fin 1) (divisors' ! j)) ?g"
          using atj by simp
        then show ?thesis using True z by auto
      next
        case False
        then show ?thesis using True atj by simp
      qed
    next
      case False
      then have e: "?X1 ! i = X ! i" by simp
      have c: "Suc j \<le> i \<and> i < n" using False i by simp
      show ?thesis using new [rule_format, OF c] unfolding e .
    qed
  qed
  show ?case using step r len a b by simp
qed

text \<open>
  Claim C8.  FixColumns returns on every matrix and every state of the generator.  A column
  whose computed norm is zero is first replaced by fresh samples of the generator, its
  norm is recomputed, and the fresh column is scaled by the reciprocal of the recomputed
  norm; every other column is scaled by the reciprocal of its computed norm, which is not
  zero.  So the divisor of a column is zero only if its computed norm and the recomputed
  norm of its replacement are both zero.
\<close>

theorem FixColumns_repairs:
  "\<exists>X' pos' divisors.
     FixColumns rnd gauss X pos = Inr (X', pos', divisors) \<and>
     length X' = length X \<and> length divisors = length X \<and>
     (\<forall>j<length X.
        (if Real_eq (Nrm2 rnd (X ! j)) (Fin 0)
         then \<exists>p. divisors ! j =
                    FrobeniusNorm rnd (map (\<lambda>k. gauss (p + k)) [0..<length (X ! j)]) \<and>
                  X' ! j = Scale rnd (Real_div rnd (Fin 1) (divisors ! j))
                             (map (\<lambda>k. gauss (p + k)) [0..<length (X ! j)])
         else divisors ! j = Nrm2 rnd (X ! j) \<and> \<not> Real_eq (divisors ! j) (Fin 0) \<and>
              X' ! j = Scale rnd (Real_div rnd (Fin 1) (Nrm2 rnd (X ! j))) (X ! j)))"
proof -
  let ?norms = "ColumnNorms rnd X"
  have n: "\<forall>i<length X. ?norms ! i = Nrm2 rnd (X ! i)" by (simp add: ColumnNorms_def)
  obtain X' pos' divisors where
    r: "FixColumns_loop rnd gauss ?norms (length X) 0 (X, pos, []) = Inr (X', pos', divisors)"
    and len: "length X' = length X" "length divisors = length X"
    and b: "\<forall>i. 0 \<le> i \<and> i < length X \<longrightarrow>
        (if Real_eq (?norms ! i) (Fin 0)
         then \<exists>p. divisors ! i =
                    FrobeniusNorm rnd (map (\<lambda>k. gauss (p + k)) [0..<length (X ! i)]) \<and>
                  X' ! i = Scale rnd (Real_div rnd (Fin 1) (divisors ! i))
                             (map (\<lambda>k. gauss (p + k)) [0..<length (X ! i)])
         else divisors ! i = ?norms ! i \<and>
              X' ! i = Scale rnd (Real_div rnd (Fin 1) (?norms ! i)) (X ! i))"
    using FixColumns_loop_result [of ?norms "length X" X "[]" 0 rnd gauss pos]
    by (auto simp: ColumnNorms_def)
  have "\<forall>j<length X.
        (if Real_eq (Nrm2 rnd (X ! j)) (Fin 0)
         then \<exists>p. divisors ! j =
                    FrobeniusNorm rnd (map (\<lambda>k. gauss (p + k)) [0..<length (X ! j)]) \<and>
                  X' ! j = Scale rnd (Real_div rnd (Fin 1) (divisors ! j))
                             (map (\<lambda>k. gauss (p + k)) [0..<length (X ! j)])
         else divisors ! j = Nrm2 rnd (X ! j) \<and> \<not> Real_eq (divisors ! j) (Fin 0) \<and>
              X' ! j = Scale rnd (Real_div rnd (Fin 1) (Nrm2 rnd (X ! j))) (X ! j))"
  proof (intro allI impI)
    fix j assume j: "j < length X"
    have nj: "?norms ! j = Nrm2 rnd (X ! j)" using n j by simp
    show "if Real_eq (Nrm2 rnd (X ! j)) (Fin 0)
         then \<exists>p. divisors ! j =
                    FrobeniusNorm rnd (map (\<lambda>k. gauss (p + k)) [0..<length (X ! j)]) \<and>
                  X' ! j = Scale rnd (Real_div rnd (Fin 1) (divisors ! j))
                             (map (\<lambda>k. gauss (p + k)) [0..<length (X ! j)])
         else divisors ! j = Nrm2 rnd (X ! j) \<and> \<not> Real_eq (divisors ! j) (Fin 0) \<and>
              X' ! j = Scale rnd (Real_div rnd (Fin 1) (Nrm2 rnd (X ! j))) (X ! j)"
      using b [rule_format, of j] j unfolding nj by (auto split: if_splits)
  qed
  then show ?thesis using r len unfolding FixColumns_def by blast
qed

lemma sqrt_four: "sqrt 4 = 2"
  using real_sqrt_abs [of 2] by simp

theorem FixColumns_repairs_witness:
  "FixColumns Fin (constant_samples (Fin 2)) [[Fin 0], [Fin 2]] 0
     = Inr ([[Fin 1], [Fin 1]], 1, [Fin 2, Fin 2])"
  using FixColumns_repairs [of Fin "constant_samples (Fin 2)" "[[Fin 0], [Fin 2]]" 0]
  by (simp add: FixColumns_def FixColumns_loop.simps ColumnNorms_def Nrm2_def FrobeniusNorm_def
      MakeGaussian_def Scale_def Get_def Set_def Real_eq_def constant_samples_def sqrt_four)

text \<open>
  The recomputed norm can be zero again, and then the division is by a zero norm: on a
  matrix with one column and no rows, where a fresh column has no entries, and on a zero
  column of one entry when the generator delivers a zero.
\<close>

theorem FixColumns_zero_divisor:
  "FixColumns Fin (constant_samples (Fin 1)) [[]] 0 = Inr ([[]], 0, [Fin 0]) \<and>
   FixColumns Fin (constant_samples (Fin 0)) [[Fin 0]] 0 = Inr ([[NaN]], 1, [Fin 0]) \<and>
   Real_eq (Fin 0) (Fin 0)"
  by (simp add: FixColumns_def FixColumns_loop.simps ColumnNorms_def Nrm2_def FrobeniusNorm_def
      MakeGaussian_def Scale_def Get_def Set_def Real_eq_def signed_inf_def constant_samples_def)

section \<open>The chunk sizes sum to the sample count\<close>

lemma sint_word_of_int_small:
  assumes "- (2 ^ 31) \<le> k" and "k < 2 ^ 31"
  shows "sint (word_of_int k :: Int_t) = k"
  using assms by (simp add: sint_sbintrunc' signed_take_bit_int_eq_self)

lemma sint_Int_bounds: "- (2 ^ 31) \<le> sint (w :: Int_t) \<and> sint w < 2 ^ 31"
  using sint_range_size [of w] by (simp add: word_size)

lemma rounds_integer:
  assumes "rounds_like_double rnd" and "\<bar>k\<bar> \<le> 2 ^ 31"
  shows "rnd (real_of_int k) = Fin (real_of_int k)"
  using assms unfolding rounds_like_double_def by blast

lemma truncate_between:
  assumes "real_of_int b \<le> y" and "y < real_of_int b + 1" and "0 \<le> b"
  shows "truncate y = b"
proof -
  have "0 \<le> y" using assms(1,3) by linarith
  moreover have "\<lfloor>y\<rfloor> = b" using assms(1,2) by linarith
  ultimately show ?thesis by (simp add: truncate_def)
qed

lemma rounded_quotient:
  assumes rd: "rounds_like_double rnd" and c1: "1 \<le> cnt" and cT: "cnt \<le> T" and T: "T < 2 ^ 31"
  shows "\<exists>y. rnd (real_of_int T / real_of_int cnt) = Fin y \<and> truncate y = T div cnt"
proof -
  let ?b = "T div cnt" and ?r = "T mod cnt"
  let ?q = "real_of_int T / real_of_int cnt"
  have cpos: "0 < real_of_int cnt" using c1 by simp
  have b0: "0 \<le> ?b" using c1 cT by (simp add: pos_imp_zdiv_nonneg_iff)
  have bT: "?b \<le> T" using c1 cT by (intro int_div_le_self) linarith
  have Teq: "T = ?b * cnt + ?r" by simp
  have r0: "0 \<le> ?r" and rc: "?r < cnt" using c1 by simp_all
  have qeq: "?q = real_of_int ?b + real_of_int ?r / real_of_int cnt"
  proof -
    have "real_of_int T = real_of_int ?b * real_of_int cnt + real_of_int ?r"
      by (metis Teq of_int_add of_int_mult)
    then show ?thesis using cpos by (simp add: field_simps)
  qed
  show ?thesis
  proof (cases "?r = 0")
    case True
    then have "?q = real_of_int ?b" using qeq by simp
    moreover have "\<bar>?b\<bar> \<le> 2 ^ 31" using b0 bT T by simp
    ultimately have "rnd ?q = Fin (real_of_int ?b)" using rounds_integer [OF rd] by simp
    moreover have "truncate (real_of_int ?b) = ?b" using b0 by (simp add: truncate_def)
    ultimately show ?thesis by blast
  next
    case False
    then have r1: "1 \<le> ?r" using r0 by linarith
    have q1: "1 \<le> ?q" using c1 cT by (simp add: le_divide_eq_1_pos)
    have "?q \<le> real_of_int T"
    proof -
      have "real_of_int T / real_of_int cnt \<le> real_of_int T / 1"
        using c1 cT by (intro divide_left_mono) simp_all
      then show ?thesis by simp
    qed
    moreover have Tr: "real_of_int T < 2 ^ 31"
      using T by (metis of_int_less_numeral_power_cancel_iff)
    ultimately have qT: "?q \<le> 2 ^ 31" by linarith
    obtain y where y: "rnd ?q = Fin y" and e: "\<bar>y - ?q\<bar> \<le> ?q / 2 ^ 53"
      using rd q1 qT unfolding rounds_like_double_def by blast
    have "real_of_int T < 2 ^ 53"
    proof -
      have "(2 :: real) ^ 31 \<le> 2 ^ 53" by simp
      then show ?thesis using Tr by linarith
    qed
    then have "?q / 2 ^ 53 < 1 / real_of_int cnt"
      using cpos by (simp add: field_simps)
    then have d: "\<bar>y - ?q\<bar> < 1 / real_of_int cnt" using e by linarith
    have lo: "real_of_int ?b + 1 / real_of_int cnt \<le> ?q"
    proof -
      have "1 / real_of_int cnt \<le> real_of_int ?r / real_of_int cnt"
        using r1 cpos by (intro divide_right_mono) simp_all
      then show ?thesis using qeq by linarith
    qed
    have hi: "?q \<le> real_of_int ?b + 1 - 1 / real_of_int cnt"
    proof -
      have "real_of_int ?r \<le> real_of_int cnt - 1" using rc by linarith
      then have "real_of_int ?r / real_of_int cnt \<le> (real_of_int cnt - 1) / real_of_int cnt"
        using cpos by (intro divide_right_mono) simp_all
      also have "\<dots> = 1 - 1 / real_of_int cnt" using cpos by (simp add: field_simps)
      finally show ?thesis using qeq by linarith
    qed
    have "real_of_int ?b \<le> y" and "y < real_of_int ?b + 1" using d lo hi by linarith+
    then have "truncate y = ?b" using b0 by (rule truncate_between)
    then show ?thesis using y by blast
  qed
qed

lemma Real_of_Int_exact:
  assumes "rounds_like_double rnd"
  shows "Real_of_Int rnd i = Fin (real_of_int (sint i))"
proof -
  have "\<bar>sint i\<bar> \<le> 2 ^ 31" using sint_Int_bounds [of i] by linarith
  then show ?thesis unfolding Real_of_Int_def by (rule rounds_integer [OF assms])
qed

lemma truncate_of_int: "truncate (real_of_int k) = k"
  by (simp add: truncate_def)

lemma num_minus_one:
  assumes "rounds_like_double rnd" and "1 \<le> cnt" and "cnt < 2 ^ 31"
  shows "Real_sub rnd (Fin (real_of_int cnt)) (Fin 1) = Fin (real_of_int (cnt - 1))"
proof -
  have "\<bar>cnt - 1\<bar> \<le> 2 ^ 31" using assms(2,3) by linarith
  then have "rnd (real_of_int (cnt - 1)) = Fin (real_of_int (cnt - 1))"
    by (rule rounds_integer [OF assms(1)])
  then show ?thesis by (simp add: Real_sub_def)
qed

lemma Block_result:
  assumes rd: "rounds_like_double rnd" and c1: "1 \<le> cnt" and cT: "cnt \<le> sint numSamples"
  shows "\<exists>block. Block rnd numSamples (Fin (real_of_int cnt)) = Inr block \<and>
           sint block = sint numSamples div cnt"
proof -
  let ?T = "sint numSamples"
  have T: "?T < 2 ^ 31" using sint_Int_bounds [of numSamples] by simp
  obtain y where y: "rnd (real_of_int ?T / real_of_int cnt) = Fin y"
    and t: "truncate y = ?T div cnt"
    using rounded_quotient [OF rd c1 cT T] by blast
  have b0: "0 \<le> ?T div cnt" using c1 cT by (simp add: pos_imp_zdiv_nonneg_iff)
  have "?T div cnt \<le> ?T" using c1 cT by (intro int_div_le_self) linarith
  then have b31: "?T div cnt < 2 ^ 31" using T by linarith
  have "Block rnd numSamples (Fin (real_of_int cnt)) = Inr (word_of_int (?T div cnt))"
    using c1 y t b0 b31 by (simp add: Block_def Real_of_Int_exact [OF rd])
  moreover have "sint (word_of_int (?T div cnt) :: Int_t) = ?T div cnt"
    using b0 b31 by (intro sint_word_of_int_small) linarith+
  ultimately show ?thesis by blast
qed

lemma Leftover_result:
  assumes rd: "rounds_like_double rnd" and c1: "1 \<le> cnt" and cT: "cnt \<le> sint numSamples"
    and b: "sint block = sint numSamples div cnt"
  shows "\<exists>leftover. Leftover rnd numSamples (Fin (real_of_int cnt)) block = Inr leftover \<and>
           sint leftover = sint numSamples - (cnt - 1) * (sint numSamples div cnt)"
proof -
  let ?T = "sint numSamples"
  let ?b = "?T div cnt"
  let ?l = "?T - (cnt - 1) * ?b"
  have T: "?T < 2 ^ 31" using sint_Int_bounds [of numSamples] by simp
  have b0: "0 \<le> ?b" using c1 cT by (simp add: pos_imp_zdiv_nonneg_iff)
  have "cnt * ?b \<le> ?T" using c1 by (smt (verit) mult_div_mod_eq pos_mod_sign)
  then have cb: "(cnt - 1) * ?b + ?b \<le> ?T" by (simp add: algebra_simps)
  have p0: "0 \<le> (cnt - 1) * ?b" using c1 b0 by simp
  have "\<bar>(cnt - 1) * ?b\<bar> \<le> 2 ^ 31" using p0 cb b0 T by linarith
  then have m: "rnd (real_of_int ((cnt - 1) * ?b)) = Fin (real_of_int ((cnt - 1) * ?b))"
    by (rule rounds_integer [OF rd])
  have "\<bar>?l\<bar> \<le> 2 ^ 31" using p0 cb b0 T by linarith
  then have s: "rnd (real_of_int ?l) = Fin (real_of_int ?l)"
    by (rule rounds_integer [OF rd])
  have l0: "0 \<le> ?l" and l31: "?l < 2 ^ 31" using p0 cb b0 T by linarith+
  have cnt31: "cnt < 2 ^ 31" using cT T by linarith
  have mul: "Real_mul rnd (Fin (real_of_int (cnt - 1))) (Fin (real_of_int ?b)) =
               Fin (real_of_int ((cnt - 1) * ?b))"
    using m by simp
  have sub: "Real_sub rnd (Fin (real_of_int ?T)) (Fin (real_of_int ((cnt - 1) * ?b))) =
               Fin (real_of_int ?l)"
    using s by (simp add: Real_sub_def)
  have "truncate (real_of_int ?l) = ?l" by (rule truncate_of_int)
  then have "Leftover rnd numSamples (Fin (real_of_int cnt)) block = Inr (word_of_int ?l)"
    unfolding Leftover_def Real_of_Int_exact [OF rd] num_minus_one [OF rd c1 cnt31] b mul sub
    using l0 l31 by simp
  moreover have "sint (word_of_int ?l :: Int_t) = ?l"
    using l0 l31 by (intro sint_word_of_int_small) linarith+
  ultimately show ?thesis by blast
qed

lemma ChunkSizes_loop_result:
  assumes rd: "rounds_like_double rnd" and c1: "1 \<le> cnt" and c31: "cnt < 2 ^ 31"
    and c: "c \<le> nat cnt"
  shows "ChunkSizes_loop rnd (Fin (real_of_int cnt)) block leftover (of_nat c) sizes =
           Some (sizes @ map (\<lambda>i. if int i = cnt - 1 then leftover else block) [c..<nat cnt])"
  using c
proof (induction "nat cnt - c" arbitrary: c sizes)
  case 0
  then have "c = nat cnt" by simp
  then have "int c = cnt" using c1 by simp
  moreover from this have "c < 2 ^ 31" using c31 by simp
  ultimately have "Real_of_Int rnd (of_nat c) = Fin (real_of_int cnt)"
    using Real_of_Int_exact [OF rd, of "of_nat c"] sint_of_nat_small [of c] by simp
  then show ?case using \<open>c = nat cnt\<close> by (subst ChunkSizes_loop.simps) simp
next
  case (Suc d)
  then have lt: "c < nat cnt" by simp
  then have "int c < 2 ^ 31" using c31 by linarith
  then have c31': "c < 2 ^ 31" by simp
  have conv: "Real_of_Int rnd (of_nat c) = Fin (real c)"
    using Real_of_Int_exact [OF rd, of "of_nat c"] sint_of_nat_small [OF c31'] by simp
  have cond: "Real_lt (Real_of_Int rnd (of_nat c)) (Fin (real_of_int cnt))"
    using lt conv by simp
  have size: "ChunkSize rnd (Fin (real_of_int cnt)) block leftover (of_nat c) =
                (if int c = cnt - 1 then leftover else block)"
    unfolding ChunkSize_def conv num_minus_one [OF rd c1 c31]
    by (auto simp: Real_eq_def)
  have d: "d = nat cnt - Suc c" using Suc.hyps(2) by simp
  have "ChunkSizes_loop rnd (Fin (real_of_int cnt)) block leftover (of_nat c) sizes =
          ChunkSizes_loop rnd (Fin (real_of_int cnt)) block leftover (of_nat (Suc c))
            (sizes @ [if int c = cnt - 1 then leftover else block])"
    using cond size by (subst ChunkSizes_loop.simps) (simp add: add.commute)
  also have "\<dots> = Some ((sizes @ [if int c = cnt - 1 then leftover else block]) @
                        map (\<lambda>i. if int i = cnt - 1 then leftover else block) [Suc c..<nat cnt])"
    using Suc.hyps(1) [OF d] lt by simp
  also have "\<dots> = Some (sizes @ map (\<lambda>i. if int i = cnt - 1 then leftover else block) [c..<nat cnt])"
    using lt by (simp add: upt_conv_Cons)
  finally show ?case .
qed

lemma ChunkSizes_whole_count:
  assumes "rounds_like_double rnd" and "1 \<le> cnt" and "cnt \<le> sint numSamples"
  shows "\<exists>sizes.
     ChunkSizes rnd numSamples (Fin (real_of_int cnt)) = Some (Inr sizes) \<and>
     length sizes = nat cnt \<and>
     (\<forall>c<nat cnt.
        sint (sizes ! c) =
          (if int c = cnt - 1
           then sint numSamples - (cnt - 1) * (sint numSamples div cnt)
           else sint numSamples div cnt)) \<and>
     sum_list (map sint sizes) = sint numSamples"
proof -
  let ?T = "sint numSamples"
  let ?b = "?T div cnt"
  let ?l = "?T - (cnt - 1) * ?b"
  have c31: "cnt < 2 ^ 31" using assms(3) sint_Int_bounds [of numSamples] by linarith
  obtain block where bl: "Block rnd numSamples (Fin (real_of_int cnt)) = Inr block"
    and sb: "sint block = ?b"
    using Block_result [OF assms] by blast
  obtain leftover where
    lo: "Leftover rnd numSamples (Fin (real_of_int cnt)) block = Inr leftover"
    and sl: "sint leftover = ?l"
    using Leftover_result [OF assms sb] by blast
  let ?f = "\<lambda>i. if int i = cnt - 1 then leftover else block"
  let ?sizes = "map ?f [0..<nat cnt]"
  have "ChunkSizes_loop rnd (Fin (real_of_int cnt)) block leftover (of_nat 0) [] =
          Some ([] @ ?sizes)"
    by (rule ChunkSizes_loop_result [OF assms(1,2) c31]) simp
  then have r: "ChunkSizes rnd numSamples (Fin (real_of_int cnt)) = Some (Inr ?sizes)"
    using bl lo by (simp add: ChunkSizes_def)
  have e: "\<forall>c<nat cnt. sint (?sizes ! c) = (if int c = cnt - 1 then ?l else ?b)"
    using sb sl by simp
  obtain m where m: "nat cnt = Suc m" using assms(2) by (cases "nat cnt") auto
  then have im: "int m = cnt - 1" by linarith
  have "map sint (map ?f [0..<m]) = replicate m ?b"
    using sb im by (auto simp: list_eq_iff_nth_eq)
  then have "sum_list (map sint (map ?f [0..<m])) = int m * ?b"
    by (simp only: sum_list_replicate)
  then have "sum_list (map sint ?sizes) = int m * ?b + ?l"
    unfolding m using sl im by simp
  then have s: "sum_list (map sint ?sizes) = ?T" using im by simp
  show ?thesis using r e s by (intro exI [of _ ?sizes]) simp
qed

lemma rounds_like_double_exact: "rounds_like_double Fin"
  by (simp add: rounds_like_double_def)

text \<open>
  Claim C4.  For every sample count of an axis and every chunk count from 1 to that sample
  count, stored in the driver's \<^verbatim>\<open>Real\<close> variable, the loop over the chunks ends and its
  chunk sizes are the integer quotient \<open>numSamples div numChunks\<close> for each of the first
  \<open>numChunks - 1\<close> chunks and the leftover
  \<open>numSamples - (numChunks - 1) * (numSamples div numChunks)\<close> for the last; they sum to
  the sample count exactly.  The floating-point operations are rounded by any rounding
  that is as accurate as that of \<^verbatim>\<open>double\<close>.
\<close>

theorem ChunkSizes_sum:
  assumes "rounds_like_double rnd"
    and "1 \<le> sint numChunks" and "sint numChunks \<le> sint numSamples"
  shows "\<exists>sizes.
     ChunkSizes rnd numSamples (ChunkCount rnd numChunks) = Some (Inr sizes) \<and>
     length sizes = nat (sint numChunks) \<and>
     (\<forall>c<nat (sint numChunks).
        sint (sizes ! c) =
          (if int c = sint numChunks - 1
           then sint numSamples - (sint numChunks - 1) * (sint numSamples div sint numChunks)
           else sint numSamples div sint numChunks)) \<and>
     sum_list (map sint sizes) = sint numSamples"
  using ChunkSizes_whole_count [OF assms]
  unfolding ChunkCount_def Real_of_Int_exact [OF assms(1)] .

theorem ChunkSizes_sum_witness:
  "rounds_like_double Fin \<and> ChunkSizes Fin 100 (ChunkCount Fin 3) = Some (Inr [33, 33, 34])"
proof -
  have h2: "1 \<le> sint (3 :: Int_t)" and h3: "sint (3 :: Int_t) \<le> sint (100 :: Int_t)"
    by simp_all
  obtain sizes where r: "ChunkSizes Fin 100 (ChunkCount Fin 3) = Some (Inr sizes)"
    and l: "length sizes = nat (sint (3 :: Int_t))"
    and e: "\<forall>c<nat (sint (3 :: Int_t)). sint (sizes ! c) =
          (if int c = sint (3 :: Int_t) - 1
           then sint (100 :: Int_t) - (sint (3 :: Int_t) - 1) * (sint (100 :: Int_t) div sint (3 :: Int_t))
           else sint (100 :: Int_t) div sint (3 :: Int_t))"
    using ChunkSizes_sum [OF rounds_like_double_exact h2 h3] by blast
  have "sint (sizes ! 0) = sint (33 :: Int_t)" using e [rule_format, of 0] by simp
  moreover have "sint (sizes ! 1) = sint (33 :: Int_t)" using e [rule_format, of 1] by simp
  moreover have "sint (sizes ! 2) = sint (34 :: Int_t)" using e [rule_format, of 2] by simp
  ultimately have "sizes ! 0 = 33 \<and> sizes ! 1 = 33 \<and> sizes ! 2 = 34"
    by (metis signed_word_eqI)
  moreover have "sizes = [sizes ! 0, sizes ! 1, sizes ! 2]"
    using l by (auto simp: numeral_eq_Suc length_Suc_conv)
  ultimately have "sizes = [33, 33, 34]" by simp
  then show ?thesis using r rounds_like_double_exact by simp
qed

text \<open>
  A \<^verbatim>\<open>Real\<close> that is not a whole number is not a chunk count the driver reads; for
  such a value no iteration meets \<open>realChunk==numReal-1\<close>.
\<close>

lemma ChunkSizes_fractional_count:
  "ChunkSizes Fin 100 (Fin (5 / 2)) = Some (Inr [40, 40, 40])"
  by (simp add: ChunkSizes_def Block_def Leftover_def Real_of_Int_def truncate_def
      ChunkSizes_loop.simps ChunkSize_def Real_sub_def Real_eq_def)

section \<open>The unfinished KKT assembly\<close>

text \<open>
  Claim C9.  Every overload of \<^verbatim>\<open>socp::affine::KKT\<close> (dense, distributed, sparse and
  distributed sparse) raises the logic error on entry, for every input, and leaves its
  output matrix \<open>J\<close> as it was.
\<close>

theorem KKT_not_finished:
  "KKT A G s z orders firstInds J onlyLower
     = (Inl (LogicError ''This routine is not yet finished''), J) \<and>
   KKT_Dist A' G' sPre zPre ordersPre firstIndsPre JPre onlyLower
     = (Inl (LogicError ''This routine is not yet finished''), JPre) \<and>
   KKT_Sparse A'' G'' s z orders firstInds J'' onlyLower
     = (Inl (LogicError ''This routine is not yet finished''), J'') \<and>
   KKT_DistSparse A''' G''' s' z' orders' firstInds' J''' onlyLower
     = (Inl (LogicError ''This routine is not yet finished''), J''')"
  by (simp add: KKT_def KKT_Dist_def KKT_Sparse_def KKT_DistSparse_def)

end
